theory Spec2Isabelle
  imports Main "HOL-Library.Word"
begin

unbundle bit_operations_syntax

section \<open>The record file reader of simpleperf (record_file_reader.cpp)\<close>

text \<open>
  The reader maps a perf.data-style file into memory and interprets it through raw
  pointers. The embedding keeps the functions of \<^verbatim>\<open>record_file_reader.cpp\<close> under
  their own names. Three things the C++ leaves implicit are written out:
  \<^item> the mapped bytes are a list, and a byte is read at its distance from
    \<^verbatim>\<open>mmap_addr_\<close>, a natural number; a read that leaves the list is the error
    \<open>OutOfMapping\<close> (the source has undefined behaviour there). Where the source adds
    the fields of a section to a pointer and compares the pointers it gets, the pointers
    are 64-bit addresses whose sums wrap;
  \<^item> \<^verbatim>\<open>CHECK\<close> and \<^verbatim>\<open>CHECK_LE\<close> of \<^verbatim>\<open>base/logging.h\<close> log fatally and abort the
    process: the error \<open>FatalCheck\<close>. The C++ functions return plain vectors and maps,
    so no error of this datatype is ever handed to the caller;
  \<^item> a loop that need not end is a partial function: \<open>None\<close> is "never returns".
  Members of the class lose their trailing underscore (\<open>record_fd\<close> for
  \<^verbatim>\<open>record_fd_\<close>), which Isabelle does not accept in a name.
  \<^verbatim>\<open>size_t\<close> is taken to be 64 bits wide and the host to be little-endian.
\<close>

subsection \<open>Errors and bytes\<close>

type_synonym byte = "8 word"

datatype error =
    FatalCheck      \<comment> \<open>a failed CHECK: LOG(FATAL), the process aborts\<close>
  | OutOfMapping    \<comment> \<open>a read outside the mapped bytes: undefined behaviour\<close>
  | DivisionByZero  \<comment> \<open>an integer division by zero: undefined behaviour\<close>

text \<open>The bytes \<open>[p, p + n)\<close> of the mapping, when they all lie inside it.\<close>

definition bytes_at :: "byte list \<Rightarrow> nat \<Rightarrow> nat \<Rightarrow> byte list option" where
  "bytes_at bs p n = (if p + n \<le> length bs then Some (take n (drop p bs)) else None)"

text \<open>A little-endian unsigned integer, as a load through a reinterpreted pointer reads it.\<close>

fun le_nat :: "byte list \<Rightarrow> nat" where
  "le_nat [] = 0"
| "le_nat (b # bs) = unat b + 256 * le_nat bs"

definition u16_at :: "byte list \<Rightarrow> nat \<Rightarrow> 16 word option" where
  "u16_at bs p = map_option (\<lambda>s. word_of_nat (le_nat s)) (bytes_at bs p 2)"

definition u32_at :: "byte list \<Rightarrow> nat \<Rightarrow> 32 word option" where
  "u32_at bs p = map_option (\<lambda>s. word_of_nat (le_nat s)) (bytes_at bs p 4)"

definition u64_at :: "byte list \<Rightarrow> nat \<Rightarrow> 64 word option" where
  "u64_at bs p = map_option (\<lambda>s. word_of_nat (le_nat s)) (bytes_at bs p 8)"

subsection \<open>The structures of the file format\<close>

text \<open>
  Modelled from the spec: \<^verbatim>\<open>SectionDesc\<close>, \<^verbatim>\<open>FileHeader\<close> and \<^verbatim>\<open>FileAttr\<close> are declared
  in a header of the repository that is not among the sources. The spec gives
  \<^verbatim>\<open>SectionDescriptor\<close> as \<open>{offset: u64, size: u64}\<close>; the header carries
  \<^verbatim>\<open>attr_size\<close>, the sections \<^verbatim>\<open>attrs\<close> and \<^verbatim>\<open>data\<close> and the byte array
  \<^verbatim>\<open>features\<close>; an attribute record carries the payload \<^verbatim>\<open>attr\<close> and the section
  \<^verbatim>\<open>ids\<close>. These are the only fields the reader touches. The field \<^verbatim>\<open>size\<close> is
  \<open>size'\<close> here, \<open>size\<close> being a constant of HOL.
\<close>

record SectionDesc =
  offset :: "64 word"
  size' :: "64 word"

text \<open>
  Of \<^verbatim>\<open>perf_event_attr\<close> (the kernel's structure) the reader reads \<^verbatim>\<open>sample_type\<close>
  and the one-bit field \<^verbatim>\<open>sample_id_all\<close>.
\<close>

record perf_event_attr =
  sample_type :: "64 word"
  sample_id_all :: bool

record FileAttr =
  attr :: perf_event_attr
  ids :: SectionDesc

record FileHeader =
  attr_size :: "64 word"
  attrs :: SectionDesc
  data :: SectionDesc
  features :: "byte list"  \<comment> \<open>its length is \<^verbatim>\<open>sizeof(header->features)\<close>\<close>

text \<open>
  What the process sees through \<^verbatim>\<open>mmap_addr_\<close>: the mapped bytes, and the two
  structures with an opaque payload as the reinterpreting casts present them, since their
  layout is not in the sources: the header at distance 0, and the attribute record at a
  given distance (\<open>None\<close> where the record would leave the mapping).
  \<open>sizeof_FileAttr\<close> is the stride of \<^verbatim>\<open>attr++\<close>. \<open>base_addr\<close> is the value
  of \<^verbatim>\<open>mmap_addr_\<close>, the address the bytes are mapped at: pointers are 64-bit
  addresses, and where the source compares two pointers it compares these.
\<close>

record mapped_file =
  base_addr :: "64 word"
  bytes :: "byte list"
  header_view :: FileHeader
  attr_view :: "nat \<Rightarrow> FileAttr option"
  sizeof_FileAttr :: nat

text \<open>
  Of a decoded \<^verbatim>\<open>Record\<close> the reader uses the type of its header, the time of a
  \<^verbatim>\<open>SampleRecord\<close> (\<^verbatim>\<open>time_data.time\<close>) and the time of the trailing sample id
  (\<^verbatim>\<open>sample_id.time_data.time\<close>). \<open>raw\<close> is the buffer the record was decoded from.
\<close>

record Record =
  header_type :: "32 word"
  time_data_time :: "64 word"
  sample_id_time :: "64 word"
  raw :: "byte list"

text \<open>Constants of the kernel's \<^verbatim>\<open>perf_event.h\<close> and of the format's feature list.\<close>

definition PERF_RECORD_SAMPLE :: "32 word" where
  "PERF_RECORD_SAMPLE = 9"

definition PERF_SAMPLE_TIME :: "64 word" where
  "PERF_SAMPLE_TIME = push_bit 2 1"

definition FEAT_CMDLINE :: int where
  "FEAT_CMDLINE = 11"

subsection \<open>The reader object and the system calls it makes\<close>

record RecordFileReader =
  filename :: string
  record_fd :: int
  mmap_addr :: "nat option"  \<comment> \<open>\<open>None\<close> is \<^verbatim>\<open>nullptr\<close>\<close>
  mmap_len :: nat
  feature_sections :: "(int \<times> SectionDesc) list"

text \<open>
  The system calls are logged in the order they are made. What each of them returns is
  given from outside: \<open>-1\<close> for a failure, \<open>None\<close> for \<^verbatim>\<open>MAP_FAILED\<close>.
\<close>

datatype syscall =
    SysOpen string
  | SysLseek int
  | SysMmap nat int
  | SysMunmap "nat option" nat
  | SysClose int

record os_results =
  open_result :: int
  lseek_result :: int
  mmap_result :: "nat option"
  munmap_result :: int
  close_result :: int

definition new_RecordFileReader :: "string \<Rightarrow> int \<Rightarrow> RecordFileReader" where
  "new_RecordFileReader name fd =
     \<lparr>filename = name, record_fd = fd, mmap_addr = None, mmap_len = 0,
      feature_sections = []\<rparr>"

text \<open>\<^verbatim>\<open>Close\<close>: the result, the reader afterwards, the calls made.\<close>

definition Close :: "os_results \<Rightarrow> RecordFileReader \<Rightarrow> bool \<times> RecordFileReader \<times> syscall list" where
  "Close os r =
     (let result = True;
          result = (if munmap_result os = -1 then False else result);
          result = (if close_result os = -1 then False else result)
      in (result, r\<lparr>record_fd := -1\<rparr>,
          [SysMunmap (mmap_addr r) (mmap_len r), SysClose (record_fd r)]))"

text \<open>The destructor: the reader as it is left, the calls made.\<close>

definition destroy_RecordFileReader ::
    "os_results \<Rightarrow> RecordFileReader \<Rightarrow> RecordFileReader \<times> syscall list" where
  "destroy_RecordFileReader os r =
     (if record_fd r \<noteq> -1 then (case Close os r of (_, r', calls) \<Rightarrow> (r', calls))
      else (r, []))"

definition MmapFile :: "os_results \<Rightarrow> RecordFileReader \<Rightarrow> bool \<times> RecordFileReader \<times> syscall list" where
  "MmapFile os r =
     (let file_size = lseek_result os in
      if file_size = -1 then (False, r, [SysLseek (record_fd r)])
      else
        let mmap_len = nat file_size;
            calls = [SysLseek (record_fd r), SysMmap mmap_len (record_fd r)]
        in case mmap_result os of
             None \<Rightarrow> (False, r, calls)
           | Some a \<Rightarrow> (True, r\<lparr>mmap_addr := Some a, mmap_len := mmap_len\<rparr>, calls))"

text \<open>
  \<^verbatim>\<open>CreateInstance\<close>: \<open>None\<close> is the null pointer. When \<^verbatim>\<open>MmapFile\<close> fails, the
  \<^verbatim>\<open>unique_ptr\<close> holding the reader goes out of scope and the destructor runs.
\<close>

definition CreateInstance ::
    "os_results \<Rightarrow> string \<Rightarrow> RecordFileReader option \<times> syscall list" where
  "CreateInstance os name =
     (let fd = open_result os in
      if fd = -1 then (None, [SysOpen name])
      else
        let reader = new_RecordFileReader name fd in
        case MmapFile os reader of
          (ok, reader', calls) \<Rightarrow>
            if \<not> ok then
              (case destroy_RecordFileReader os reader' of
                 (_, calls') \<Rightarrow> (None, SysOpen name # calls @ calls'))
            else (Some reader', SysOpen name # calls))"

text \<open>
  The descriptors open after a sequence of calls, for a process that had \<open>fds\<close> open
  before it: \<^verbatim>\<open>close(fd)\<close> releases \<open>fd\<close> whatever it returns, and of the calls made
  here only a successful \<^verbatim>\<open>open\<close> adds one.
\<close>

fun open_after :: "os_results \<Rightarrow> syscall list \<Rightarrow> int set \<Rightarrow> int set" where
  "open_after os [] fds = fds"
| "open_after os (SysOpen name # cs) fds =
     open_after os cs (if open_result os = -1 then fds else insert (open_result os) fds)"
| "open_after os (SysClose fd # cs) fds = open_after os cs (fds - {fd})"
| "open_after os (c # cs) fds = open_after os cs fds"

subsection \<open>Header and attribute table\<close>

definition FileHeader :: "mapped_file \<Rightarrow> FileHeader" where
  "FileHeader m = header_view m"

text \<open>
  \<^verbatim>\<open>AttrSection\<close> returns pointers: \<open>attr_count\<close> of them, the first at
  \<^verbatim>\<open>attrs.offset\<close>, each \<open>sizeof_FileAttr\<close> after the one before.
\<close>

definition AttrSection :: "mapped_file \<Rightarrow> error + nat list" where
  "AttrSection m =
     (let header = FileHeader m in
      if attr_size header = 0 then Inl DivisionByZero
      else
        let attr_count = unat (size' (attrs header) div attr_size header);
            attr = unat (offset (attrs header))
        in Inr (map (\<lambda>i. attr + i * sizeof_FileAttr m) [0..<attr_count]))"

text \<open>
  \<^verbatim>\<open>IdsForAttr\<close>: \<open>n\<close> identifiers remain to be read, \<open>idp\<close> (the pointer
  \<^verbatim>\<open>id\<close>) points at the next one.
\<close>

fun IdsForAttr_loop :: "byte list \<Rightarrow> nat \<Rightarrow> nat \<Rightarrow> 64 word list \<Rightarrow> error + 64 word list" where
  "IdsForAttr_loop bs 0 idp result = Inr result"
| "IdsForAttr_loop bs (Suc n) idp result =
     (case u64_at bs idp of
        None \<Rightarrow> Inl OutOfMapping
      | Some v \<Rightarrow> IdsForAttr_loop bs n (idp + 8) (result @ [v]))"

definition IdsForAttr :: "mapped_file \<Rightarrow> FileAttr \<Rightarrow> error + 64 word list" where
  "IdsForAttr m a =
     (let id_count = unat (size' (ids a) div 8);
          idp = unat (offset (ids a))
      in IdsForAttr_loop (bytes m) id_count idp [])"

subsection \<open>The data section\<close>

definition IsRecordHappensBefore :: "Record \<Rightarrow> Record \<Rightarrow> bool" where
  "IsRecordHappensBefore r1 r2 =
     (let is_r1_sample = (header_type r1 = PERF_RECORD_SAMPLE);
          is_r2_sample = (header_type r2 = PERF_RECORD_SAMPLE);
          time1 = (if is_r1_sample then time_data_time r1 else sample_id_time r1);
          time2 = (if is_r2_sample then time_data_time r2 else sample_id_time r2)
      in if time1 \<noteq> time2 then time1 < time2
         else if is_r1_sample \<noteq> is_r2_sample then (if is_r1_sample then False else True)
         else False)"

text \<open>
  The walk over the data region. \<open>p\<close> and \<open>end\<close> are pointers, \<open>decode\<close> is
  \<^verbatim>\<open>ReadRecordFromBuffer\<close> with the attribute already given, applied to the
  \<^verbatim>\<open>header->size\<close> bytes at \<open>p\<close>, which it reads through the pointer to the
  header. The size of a \<^verbatim>\<open>perf_event_header\<close> is the 16-bit field after the 32-bit
  \<^verbatim>\<open>type\<close> and the 16-bit \<^verbatim>\<open>misc\<close>.
\<close>

definition header_size_at :: "byte list \<Rightarrow> nat \<Rightarrow> 16 word option" where
  "header_size_at bs p = u16_at bs (p + 6)"

partial_function (option) DataSection_loop ::
    "byte list \<Rightarrow> (byte list \<Rightarrow> Record) \<Rightarrow> nat \<Rightarrow> nat \<Rightarrow> Record list
       \<Rightarrow> (error + Record list) option" where
  "DataSection_loop bs decode end p result =
     (if p < end then
        (case header_size_at bs p of
           None \<Rightarrow> Some (Inl OutOfMapping)
         | Some sz \<Rightarrow>
             if p + unat sz \<le> end then
               (case bytes_at bs p (unat sz) of
                  None \<Rightarrow> Some (Inl OutOfMapping)
                | Some buf \<Rightarrow>
                    DataSection_loop bs decode end (p + unat sz) (result @ [decode buf]))
             else DataSection_loop bs decode end (p + unat sz) result)
      else Some (Inr result))"

text \<open>
  \<^verbatim>\<open>DataSection\<close>. \<open>std_sort\<close> is \<^verbatim>\<open>std::sort\<close> and \<open>ReadRecordFromBuffer\<close> the
  decoder of \<^verbatim>\<open>record.h\<close>, both from outside this file. The pointers \<open>end\<close> and \<open>p\<close>
  are sums of 64-bit values and wrap at \<open>2 ^ 64\<close>: when \<open>end\<close> does not lie above \<open>p\<close>
  the loop is not entered and nothing is materialized. When it does, the second sum has
  not wrapped, and the walk is the one above on the distances of \<open>p\<close> and \<open>end\<close> from
  \<^verbatim>\<open>mmap_addr_\<close>; a \<open>p\<close> that a wrapped first sum has put below the mapping has a
  distance beyond every mapped byte. (A mapping ends more than \<open>2 ^ 16\<close> bytes below
  \<open>2 ^ 64\<close>, so that \<open>p\<close> does not wrap inside the walk.)
\<close>

definition DataSection ::
    "((Record \<Rightarrow> Record \<Rightarrow> bool) \<Rightarrow> Record list \<Rightarrow> Record list)
       \<Rightarrow> (perf_event_attr \<Rightarrow> byte list \<Rightarrow> Record) \<Rightarrow> mapped_file
       \<Rightarrow> (error + Record list) option" where
  "DataSection std_sort ReadRecordFromBuffer m =
     (let header = FileHeader m in
      case AttrSection m of
        Inl e \<Rightarrow> Some (Inl e)
      | Inr file_attrs \<Rightarrow>
          if \<not> length file_attrs > 0 then Some (Inl FatalCheck)
          else
            case attr_view m (file_attrs ! 0) of
              None \<Rightarrow> Some (Inl OutOfMapping)
            | Some fa \<Rightarrow>
                let attr = attr fa;
                    end = base_addr m + offset (data header) + size' (data header);
                    p = base_addr m + offset (data header)
                in case (if p < end
                         then DataSection_loop (bytes m) (ReadRecordFromBuffer attr)
                                (unat (p - base_addr m) + unat (end - p))
                                (unat (p - base_addr m)) []
                         else Some (Inr [])) of
                     None \<Rightarrow> None
                   | Some (Inl e) \<Rightarrow> Some (Inl e)
                   | Some (Inr result) \<Rightarrow>
                       if sample_type attr AND PERF_SAMPLE_TIME \<noteq> 0 \<and> sample_id_all attr
                       then Some (Inr (std_sort IsRecordHappensBefore result))
                       else Some (Inr result))"

subsection \<open>The feature sections\<close>

text \<open>
  \<^verbatim>\<open>std::map<int, SectionDesc>\<close> is a list of pairs in the order of the keys, without
  repeated keys. \<^verbatim>\<open>insert\<close> leaves the map as it is when the key is there already;
  \<^verbatim>\<open>find\<close> is \<open>map_of\<close>.
\<close>

fun map_insert :: "int \<Rightarrow> 'v \<Rightarrow> (int \<times> 'v) list \<Rightarrow> (int \<times> 'v) list" where
  "map_insert k v [] = [(k, v)]"
| "map_insert k v ((k', v') # m) =
     (if k < k' then (k, v) # (k', v') # m
      else if k = k' then (k', v') # m
      else (k', v') # map_insert k v m)"

text \<open>
  The inner loop over \<open>j\<close> for the byte \<^verbatim>\<open>header->features[i]\<close>, which the
  \<^verbatim>\<open>&\<close> promotes to \<^verbatim>\<open>int\<close>, and the outer loop over \<open>i\<close>. The bitmap has a
  fixed size, so \<open>i * 8 + j\<close> fits the \<^verbatim>\<open>int\<close> it is stored in. The vector
  \<^verbatim>\<open>features\<close> is \<open>features'\<close>, apart from the field of the header.
\<close>

definition features_of_byte :: "byte \<Rightarrow> nat \<Rightarrow> int list \<Rightarrow> int list" where
  "features_of_byte b i features' =
     fold (\<lambda>j fs. if uint b AND push_bit j 1 \<noteq> 0 then fs @ [int (i * 8 + j)] else fs)
       [0..<8] features'"

definition scan_features :: "byte list \<Rightarrow> int list" where
  "scan_features fb = fold (\<lambda>i fs. features_of_byte (fb ! i) i fs) [0..<length fb] []"

definition SectionDesc_at :: "byte list \<Rightarrow> nat \<Rightarrow> SectionDesc option" where
  "SectionDesc_at bs p =
     (case u64_at bs p of
        None \<Rightarrow> None
      | Some off \<Rightarrow>
          (case u64_at bs (p + 8) of
             None \<Rightarrow> None
           | Some sz \<Rightarrow> Some \<lparr>offset = off, size' = sz\<rparr>))"

text \<open>The loop over the features found: \<open>p\<close> points at the next descriptor.\<close>

fun insert_sections ::
    "byte list \<Rightarrow> int list \<Rightarrow> nat \<Rightarrow> (int \<times> SectionDesc) list
       \<Rightarrow> error + (int \<times> SectionDesc) list" where
  "insert_sections bs [] p sections = Inr sections"
| "insert_sections bs (feature # features') p sections =
     (case SectionDesc_at bs p of
        None \<Rightarrow> Inl OutOfMapping
      | Some d \<Rightarrow> insert_sections bs features' (p + 16) (map_insert feature d sections))"

text \<open>
  \<^verbatim>\<open>FeatureSectionDescriptors\<close> fills the member \<^verbatim>\<open>feature_sections_\<close> when it is
  empty and returns it: the map, and the reader afterwards. The sum
  \<^verbatim>\<open>header->data.offset + header->data.size\<close> is one of 64-bit unsigned integers.
\<close>

definition FeatureSectionDescriptors ::
    "RecordFileReader \<Rightarrow> mapped_file
       \<Rightarrow> error + ((int \<times> SectionDesc) list \<times> RecordFileReader)" where
  "FeatureSectionDescriptors r m =
     (if feature_sections r = [] then
        let header = FileHeader m;
            features' = scan_features (features header);
            feature_section_offset = offset (data header) + size' (data header);
            p = unat feature_section_offset
        in case insert_sections (bytes m) features' p (feature_sections r) of
             Inl e \<Rightarrow> Inl e
           | Inr sections \<Rightarrow> Inr (sections, r\<lparr>feature_sections := sections\<rparr>)
      else Inr (feature_sections r, r))"

subsection \<open>The command line feature\<close>

text \<open>
  Modelled from the spec: \<^verbatim>\<open>DataAtOffset\<close> and \<^verbatim>\<open>MoveFromBinaryFormat\<close> are declared
  in headers of the repository that are not among the sources. A section's offset is
  interpreted relative to the base address of the mapping; the argument count and each
  length are read as 4-byte integers, and the cursor moves past what was read.
  The cursor \<open>p\<close> and \<open>end\<close> are pointers, 64-bit addresses whose sums wrap; the byte a
  pointer points at is the mapped byte at its distance from \<^verbatim>\<open>mmap_addr_\<close>.
\<close>

definition DataAtOffset :: "mapped_file \<Rightarrow> 64 word \<Rightarrow> 64 word" where
  "DataAtOffset m off = base_addr m + off"

definition distance :: "mapped_file \<Rightarrow> 64 word \<Rightarrow> nat" where
  "distance m p = unat (p - base_addr m)"

definition MoveFromBinaryFormat_u32 ::
    "mapped_file \<Rightarrow> 64 word \<Rightarrow> (32 word \<times> 64 word) option" where
  "MoveFromBinaryFormat_u32 m p =
     map_option (\<lambda>v. (v, p + 4)) (u32_at (bytes m) (distance m p))"

text \<open>
  \<^verbatim>\<open>cmdline.push_back(p)\<close> builds a \<^verbatim>\<open>std::string\<close> from the pointer: the bytes
  from \<open>p\<close> up to the first zero byte, wherever that is.
\<close>

definition string_at :: "byte list \<Rightarrow> nat \<Rightarrow> string option" where
  "string_at bs p =
     (if 0 \<in> set (drop p bs)
      then Some (map (\<lambda>b. char_of (unat b)) (takeWhile (\<lambda>b. b \<noteq> 0) (drop p bs)))
      else None)"

text \<open>
  The loop over the arguments: \<open>n\<close> of them remain, \<open>p\<close> is the cursor. It returns the
  cursor it ends at with the arguments. \<^verbatim>\<open>p + len\<close> adds the 32-bit length to the
  pointer.
\<close>

fun ReadCmdlineFeature_loop ::
    "mapped_file \<Rightarrow> 64 word \<Rightarrow> nat \<Rightarrow> 64 word \<Rightarrow> string list
       \<Rightarrow> error + (string list \<times> 64 word)" where
  "ReadCmdlineFeature_loop m end 0 p cmdline = Inr (cmdline, p)"
| "ReadCmdlineFeature_loop m end (Suc n) p cmdline =
     (case MoveFromBinaryFormat_u32 m p of
        None \<Rightarrow> Inl OutOfMapping
      | Some (len, p) \<Rightarrow>
          if \<not> p + ucast len \<le> end then Inl FatalCheck
          else
            (case string_at (bytes m) (distance m p) of
               None \<Rightarrow> Inl OutOfMapping
             | Some arg \<Rightarrow>
                 ReadCmdlineFeature_loop m end n (p + ucast len) (cmdline @ [arg])))"

definition ReadCmdlineFeature ::
    "RecordFileReader \<Rightarrow> mapped_file \<Rightarrow> error + (string list \<times> RecordFileReader)" where
  "ReadCmdlineFeature r m =
     (case FeatureSectionDescriptors r m of
        Inl e \<Rightarrow> Inl e
      | Inr (section_map, r') \<Rightarrow>
          (case map_of section_map FEAT_CMDLINE of
             None \<Rightarrow> Inr ([], r')
           | Some section \<Rightarrow>
               let p = DataAtOffset m (offset section);
                   end = DataAtOffset m (offset section + size' section)
               in case MoveFromBinaryFormat_u32 m p of
                    None \<Rightarrow> Inl OutOfMapping
                  | Some (arg_count, p) \<Rightarrow>
                      if \<not> p \<le> end then Inl FatalCheck
                      else
                        (case ReadCmdlineFeature_loop m end (unat arg_count) p [] of
                           Inl e \<Rightarrow> Inl e
                         | Inr (cmdline, _) \<Rightarrow> Inr (cmdline, r'))))"

subsection \<open>Notions of the spec\<close>

text \<open>
  The words of the spec for the comparator: a record is a sample record by the kind tag
  of its header, and its timestamp is the time of the sample payload for a sample record
  and the time of the trailing sample id for any other.
\<close>

definition is_sample :: "Record \<Rightarrow> bool" where
  "is_sample r = (header_type r = PERF_RECORD_SAMPLE)"

definition timestamp :: "Record \<Rightarrow> 64 word" where
  "timestamp r = (if is_sample r then time_data_time r else sample_id_time r)"

text \<open>
  The cursor positions the walk reaches from \<open>start\<close>: each is the place of one
  length prefix, or lies at or past \<open>end\<close>.
\<close>

inductive_set cursors :: "byte list \<Rightarrow> nat \<Rightarrow> nat \<Rightarrow> nat set"
  for bs :: "byte list" and "end" :: nat and start :: nat where
  start: "start \<in> cursors bs end start"
| advance: "p \<in> cursors bs end start \<Longrightarrow> p < end \<Longrightarrow> header_size_at bs p = Some sz
            \<Longrightarrow> p + unat sz \<in> cursors bs end start"

code_pred cursorsp .

text \<open>
  The words of the spec for the data region. A complete record declares in its header
  the length it has. A truncated trailing record \<open>t\<close>, followed in the file by \<open>rest\<close>,
  declares more bytes than it has; its header may run into \<open>rest\<close>. The length
  prefixes present in a region are the cursor positions inside it.
\<close>

definition complete_record :: "byte list \<Rightarrow> bool" where
  "complete_record r =
     (case header_size_at r 0 of None \<Rightarrow> False | Some sz \<Rightarrow> unat sz = length r)"

definition truncated_record :: "byte list \<Rightarrow> byte list \<Rightarrow> bool" where
  "truncated_record t rest =
     (t \<noteq> [] \<and>
      (case header_size_at (t @ rest) 0 of None \<Rightarrow> False | Some sz \<Rightarrow> length t < unat sz))"

definition length_prefixes :: "byte list \<Rightarrow> nat \<Rightarrow> nat \<Rightarrow> nat set" where
  "length_prefixes bs end' start = {p \<in> cursors bs end' start. p < end'}"

text \<open>
  The words of the spec for the feature table: the feature ids are \<open>byte * 8 + bit\<close> for
  every set bit of the bitmap, byte by byte and bit 0 to 7 within each byte; the
  descriptors are the \<open>n\<close> pairs of 8-byte integers stored one after the other from \<open>p\<close>.
\<close>

definition feature_ids :: "byte list \<Rightarrow> nat list" where
  "feature_ids fb =
     concat (map (\<lambda>i. map (\<lambda>j. i * 8 + j) (filter (\<lambda>j. bit (fb ! i) j) [0..<8]))
               [0..<length fb])"

definition descriptor_table :: "byte list \<Rightarrow> nat \<Rightarrow> nat \<Rightarrow> SectionDesc list" where
  "descriptor_table bs p n =
     map (\<lambda>i. \<lparr>offset = word_of_nat (le_nat (take 8 (drop (p + 16 * i) bs))),
                size' = word_of_nat (le_nat (take 8 (drop (p + 16 * i + 8) bs)))\<rparr>)
       [0..<n]"

text \<open>
  The words of the spec for the command line section: a 4-byte argument count, then for
  each argument a 4-byte length and that many bytes. \<open>u32_bytes\<close> is a 4-byte integer
  as it lies in the file; the bytes of an argument are its \<open>body\<close>; the text of a
  body is what precedes its first zero byte.
\<close>

definition u32_bytes :: "nat \<Rightarrow> byte list" where
  "u32_bytes n =
     [word_of_nat n, word_of_nat (n div 256), word_of_nat (n div 65536),
      word_of_nat (n div 16777216)]"

definition encode_args :: "byte list list \<Rightarrow> byte list" where
  "encode_args bodies = concat (map (\<lambda>body. u32_bytes (length body) @ body) bodies)"

definition encode_cmdline :: "byte list list \<Rightarrow> byte list" where
  "encode_cmdline bodies = u32_bytes (length bodies) @ encode_args bodies"

definition arg_text :: "byte list \<Rightarrow> string" where
  "arg_text body = map (\<lambda>b. char_of (unat b)) (takeWhile (\<lambda>b. b \<noteq> 0) body)"

text \<open>
  Two sections for the arguments \<open>abc\<close> and \<open>de\<close>. In the first each length is followed
  by exactly that many bytes of text, as the spec lays the section out. In the second
  each text is followed by a zero byte that its length counts.
\<close>

definition cmdline_abc_de_plain :: "byte list" where
  "cmdline_abc_de_plain =
     [2, 0, 0, 0] @
     [3, 0, 0, 0] @ map of_char ''abc'' @
     [2, 0, 0, 0] @ map of_char ''de''"

definition cmdline_abc_de :: "byte list" where
  "cmdline_abc_de =
     [2, 0, 0, 0] @
     [4, 0, 0, 0] @ map of_char ''abc'' @ [0] @
     [3, 0, 0, 0] @ map of_char ''de'' @ [0]"

subsection \<open>Concrete inputs\<close>

text \<open>
  An \<^verbatim>\<open>open\<close> that returns descriptor 3, a file of 4096 bytes whose mapping fails,
  and an \<^verbatim>\<open>munmap\<close> that fails in turn.
\<close>

definition os_map_fails :: os_results where
  "os_map_fails =
     \<lparr>open_result = 3, lseek_result = 4096, mmap_result = None,
      munmap_result = -1, close_result = 0\<rparr>"

text \<open>
  Stand-ins for the two functions from outside: a decoder that takes the type from the
  header and the time from the byte after it, and an insertion sort for \<^verbatim>\<open>std::sort\<close>.
\<close>

definition fixture_decoder :: "perf_event_attr \<Rightarrow> byte list \<Rightarrow> Record" where
  "fixture_decoder a buf =
     \<lparr>header_type = word_of_nat (le_nat (take 4 buf)),
      time_data_time = ucast (buf ! 8), sample_id_time = ucast (buf ! 8), raw = buf\<rparr>"

fun fixture_insert :: "('a \<Rightarrow> 'a \<Rightarrow> bool) \<Rightarrow> 'a \<Rightarrow> 'a list \<Rightarrow> 'a list" where
  "fixture_insert lt x [] = [x]"
| "fixture_insert lt x (y # ys) = (if lt y x then y # fixture_insert lt x ys else x # y # ys)"

definition fixture_sort :: "('a \<Rightarrow> 'a \<Rightarrow> bool) \<Rightarrow> 'a list \<Rightarrow> 'a list" where
  "fixture_sort lt xs = foldr (fixture_insert lt) xs []"

text \<open>
  An attribute with \<^verbatim>\<open>PERF_SAMPLE_TIME\<close> and \<^verbatim>\<open>sample_id_all\<close>, and a file whose data
  region, at offset 4, holds three records of 9 bytes with the times 5, 3 and 3, the
  second of type 1 and the third a sample (type 9).
\<close>

definition timed_attr :: FileAttr where
  "timed_attr =
     \<lparr>attr = \<lparr>sample_type = 4, sample_id_all = True\<rparr>, ids = \<lparr>offset = 0, size' = 0\<rparr>\<rparr>"

definition three_records :: mapped_file where
  "three_records =
     \<lparr>base_addr = 0x10000,
      bytes = [0, 0, 0, 0,
               1, 0, 0, 0, 0, 0, 9, 0, 5,
               1, 0, 0, 0, 0, 0, 9, 0, 3,
               9, 0, 0, 0, 0, 0, 9, 0, 3],
      header_view =
        \<lparr>attr_size = 1, attrs = \<lparr>offset = 0, size' = 1\<rparr>,
         data = \<lparr>offset = 4, size' = 27\<rparr>, features = []\<rparr>,
      attr_view = (\<lambda>p. if p = 0 then Some timed_attr else None),
      sizeof_FileAttr = 1\<rparr>"

text \<open>
  A file whose attribute section has size 0, and one whose attribute section is shorter
  than one attribute record of 136 bytes.
\<close>

definition empty_attr_table :: mapped_file where
  "empty_attr_table =
     \<lparr>base_addr = 0x10000,
      bytes = [0, 0, 0, 0, 1, 0, 0, 0, 0, 0, 9, 0, 5],
      header_view =
        \<lparr>attr_size = 136, attrs = \<lparr>offset = 4, size' = 0\<rparr>,
         data = \<lparr>offset = 4, size' = 9\<rparr>, features = []\<rparr>,
      attr_view = (\<lambda>p. None),
      sizeof_FileAttr = 136\<rparr>"

definition short_attr_table :: mapped_file where
  "short_attr_table = empty_attr_table\<lparr>header_view :=
        \<lparr>attr_size = 136, attrs = \<lparr>offset = 4, size' = 100\<rparr>,
         data = \<lparr>offset = 4, size' = 9\<rparr>, features = []\<rparr>\<rparr>"

text \<open>
  An attribute whose identifier section holds two identifiers and three stray bytes.
\<close>

definition two_ids_attr :: FileAttr where
  "two_ids_attr =
     \<lparr>attr = \<lparr>sample_type = 0, sample_id_all = False\<rparr>, ids = \<lparr>offset = 4, size' = 19\<rparr>\<rparr>"

definition two_ids_file :: mapped_file where
  "two_ids_file =
     \<lparr>base_addr = 0x10000,
      bytes = [0, 0, 0, 0,
               7, 0, 0, 0, 0, 0, 0, 0,
               0, 1, 0, 0, 0, 0, 0, 128,
               9, 9, 9],
      header_view =
        \<lparr>attr_size = 1, attrs = \<lparr>offset = 0, size' = 1\<rparr>,
         data = \<lparr>offset = 4, size' = 0\<rparr>, features = []\<rparr>,
      attr_view = (\<lambda>p. if p = 0 then Some two_ids_attr else None),
      sizeof_FileAttr = 1\<rparr>"

text \<open>
  Four bytes, then two records of 9 bytes and the first 8 bytes of a third; and four
  bytes, a record of 9 bytes and one that declares the length 0.
\<close>

definition truncated_region :: "byte list" where
  "truncated_region =
     [0, 0, 0, 0,
      1, 0, 0, 0, 0, 0, 9, 0, 5,
      9, 0, 0, 0, 0, 0, 9, 0, 3,
      1, 0, 0, 0, 0, 0, 9, 0]"

definition zero_length_region :: "byte list" where
  "zero_length_region =
     [0, 0, 0, 0,
      1, 0, 0, 0, 0, 0, 9, 0, 5,
      1, 0, 0, 0, 0, 0, 0, 0, 3]"

text \<open>
  A reader whose map of feature sections is still empty, and a file with the feature
  bits 2 and 5 set, whose descriptor table, after the data region, is
  \<open>[{100, 20}, {200, 8}]\<close>.
\<close>

definition fresh_reader :: RecordFileReader where
  "fresh_reader =
     (new_RecordFileReader ''perf.data'' 3)\<lparr>mmap_addr := Some 4096, mmap_len := 4096\<rparr>"

definition two_features :: mapped_file where
  "two_features =
     \<lparr>base_addr = 0x10000,
      bytes = [0, 0, 0, 0,
               1, 0, 0, 0, 0, 0, 9, 0, 5,
               100, 0, 0, 0, 0, 0, 0, 0, 20, 0, 0, 0, 0, 0, 0, 0,
               200, 0, 0, 0, 0, 0, 0, 0, 8, 0, 0, 0, 0, 0, 0, 0],
      header_view =
        \<lparr>attr_size = 1, attrs = \<lparr>offset = 0, size' = 1\<rparr>,
         data = \<lparr>offset = 4, size' = 9\<rparr>, features = 0x24 # replicate 31 0\<rparr>,
      attr_view = (\<lambda>p. if p = 0 then Some timed_attr else None),
      sizeof_FileAttr = 1\<rparr>"

text \<open>
  A file whose only feature is the command line (id 11: bit 3 of byte 1), with the
  section at offset 29: \<open>abc\<close> and \<open>de\<close> with their zero bytes, and five more bytes. The
  same file with a section of 2 bytes.
\<close>

definition cmdline_features :: "byte list" where
  "cmdline_features = [0, 8] @ replicate 30 0"

definition cmdline_file :: mapped_file where
  "cmdline_file =
     \<lparr>base_addr = 0x10000,
      bytes = [0, 0, 0, 0] @
              [1, 0, 0, 0, 0, 0, 9, 0, 5] @
              [29, 0, 0, 0, 0, 0, 0, 0, 24, 0, 0, 0, 0, 0, 0, 0] @
              cmdline_abc_de @ [7, 7, 7, 7, 7],
      header_view =
        \<lparr>attr_size = 1, attrs = \<lparr>offset = 0, size' = 1\<rparr>,
         data = \<lparr>offset = 4, size' = 9\<rparr>, features = cmdline_features\<rparr>,
      attr_view = (\<lambda>p. if p = 0 then Some timed_attr else None),
      sizeof_FileAttr = 1\<rparr>"


text \<open>
  The same file again with a section of 17 bytes that holds \<open>abc\<close> and \<open>de\<close> without
  zero bytes; the two bytes 7 and 0 follow the section.
\<close>

definition unterminated_file :: mapped_file where
  "unterminated_file =
     cmdline_file\<lparr>bytes :=
              [0, 0, 0, 0] @
              [1, 0, 0, 0, 0, 0, 9, 0, 5] @
              [29, 0, 0, 0, 0, 0, 0, 0, 17, 0, 0, 0, 0, 0, 0, 0] @
              cmdline_abc_de_plain @
              [7, 0]\<rparr>"

text \<open>
  A file whose data region, at offset 4, is the truncated region above, with an
  attribute that asks for no ordering.
\<close>

definition plain_attr :: FileAttr where
  "plain_attr =
     \<lparr>attr = \<lparr>sample_type = 0, sample_id_all = False\<rparr>, ids = \<lparr>offset = 0, size' = 0\<rparr>\<rparr>"

definition truncated_file :: mapped_file where
  "truncated_file =
     \<lparr>base_addr = 0x10000,
      bytes = truncated_region,
      header_view =
        \<lparr>attr_size = 1, attrs = \<lparr>offset = 0, size' = 1\<rparr>,
         data = \<lparr>offset = 4, size' = 26\<rparr>, features = []\<rparr>,
      attr_view = (\<lambda>p. if p = 0 then Some plain_attr else None),
      sizeof_FileAttr = 1\<rparr>"

text \<open>
  The file with three records again, with a data section whose size carries the end
  pointer round to just below the start of the region.
\<close>

definition wrapping_size_file :: mapped_file where
  "wrapping_size_file =
     three_records\<lparr>header_view :=
        \<lparr>attr_size = 1, attrs = \<lparr>offset = 0, size' = 1\<rparr>,
         data = \<lparr>offset = 4, size' = - 1\<rparr>, features = []\<rparr>\<rparr>"

section \<open>Properties\<close>

subsection \<open>Helper facts\<close>

lemma PERF_SAMPLE_TIME_bit: "(w AND PERF_SAMPLE_TIME \<noteq> 0) = bit w 2"
  for w :: "64 word"
proof -
  have "PERF_SAMPLE_TIME = 2 ^ 2" by (simp add: PERF_SAMPLE_TIME_def)
  have "(w AND 2 ^ 2 \<noteq> 0) = bit w 2"
    by (simp only: and_exp_eq_0_iff_not_bit not_not)
  with \<open>PERF_SAMPLE_TIME = 2 ^ 2\<close> show ?thesis by simp
qed

lemma IsRecordHappensBefore_iff:
  "IsRecordHappensBefore r1 r2 \<longleftrightarrow>
     timestamp r1 < timestamp r2 \<or>
     (timestamp r1 = timestamp r2 \<and> \<not> is_sample r1 \<and> is_sample r2)"
  by (auto simp: IsRecordHappensBefore_def timestamp_def is_sample_def Let_def)

text \<open>The comparator is a strict weak ordering, as \<^verbatim>\<open>std::sort\<close> asks of it.\<close>

lemma IsRecordHappensBefore_irrefl: "\<not> IsRecordHappensBefore r r"
  by (simp add: IsRecordHappensBefore_iff)

lemma IsRecordHappensBefore_trans:
  "IsRecordHappensBefore a b \<Longrightarrow> IsRecordHappensBefore b c \<Longrightarrow> IsRecordHappensBefore a c"
  by (auto simp: IsRecordHappensBefore_iff)

lemma IsRecordHappensBefore_incomparable_trans:
  "\<not> IsRecordHappensBefore a b \<Longrightarrow> \<not> IsRecordHappensBefore b a
   \<Longrightarrow> \<not> IsRecordHappensBefore b c \<Longrightarrow> \<not> IsRecordHappensBefore c b
   \<Longrightarrow> \<not> IsRecordHappensBefore a c \<and> \<not> IsRecordHappensBefore c a"
  by (auto simp: IsRecordHappensBefore_iff)

text \<open>The first pointer \<^verbatim>\<open>AttrSection\<close> returns is the start of the attribute table.\<close>

lemma AttrSection_Inr:
  assumes "AttrSection m = Inr xs"
  shows "xs = map (\<lambda>i. unat (offset (attrs (header_view m))) + i * sizeof_FileAttr m)
               [0..<unat (size' (attrs (header_view m)) div attr_size (header_view m))]"
  using assms by (simp add: AttrSection_def FileHeader_def Let_def split: if_splits)

lemma AttrSection_first:
  assumes "AttrSection m = Inr xs" and "xs = a # as"
  shows "a = unat (offset (attrs (header_view m)))"
proof -
  let ?n = "unat (size' (attrs (header_view m)) div attr_size (header_view m))"
  have xs: "xs = map (\<lambda>i. unat (offset (attrs (header_view m))) + i * sizeof_FileAttr m) [0..<?n]"
    using assms(1) by (rule AttrSection_Inr)
  with assms(2) have "0 < ?n" by (cases ?n) simp_all
  with xs have "xs ! 0 = unat (offset (attrs (header_view m)))"
    by (simp del: upt.simps)
  with assms(2) show ?thesis by simp
qed

subsection \<open>Lifecycle\<close>

text \<open>
  C8: if \<^verbatim>\<open>open\<close> succeeds and the mapping step (\<^verbatim>\<open>MmapFile\<close>: the seek to the end, then
  \<^verbatim>\<open>mmap\<close>) fails, \<^verbatim>\<open>CreateInstance\<close> returns the null pointer, and the last system
  call it makes before returning is \<^verbatim>\<open>close\<close> on the descriptor \<^verbatim>\<open>open\<close> returned, made
  by the destructor of the reader it gives up: whatever descriptors were open before,
  that one is not open afterwards.
\<close>

theorem CreateInstance_map_failure_releases:
  assumes "open_result os \<noteq> -1"
      and "lseek_result os = -1 \<or> mmap_result os = None"
  shows "fst (CreateInstance os name) = None
       \<and> snd (CreateInstance os name) =
           SysOpen name #
           (if lseek_result os = -1 then [SysLseek (open_result os)]
            else [SysLseek (open_result os),
                  SysMmap (nat (lseek_result os)) (open_result os)])
           @ [SysMunmap None 0, SysClose (open_result os)]
       \<and> open_result os \<notin> open_after os (snd (CreateInstance os name)) fds"
  using assms
  by (auto simp: CreateInstance_def MmapFile_def destroy_RecordFileReader_def Close_def
        new_RecordFileReader_def Let_def)

theorem CreateInstance_map_failure_releases_witness:
  "open_result os_map_fails \<noteq> -1
   \<and> (lseek_result os_map_fails = -1 \<or> mmap_result os_map_fails = None)
   \<and> CreateInstance os_map_fails ''perf.data'' =
       (None, [SysOpen ''perf.data'', SysLseek 3, SysMmap 4096 3, SysMunmap None 0, SysClose 3])
   \<and> 3 \<notin> open_after os_map_fails (snd (CreateInstance os_map_fails ''perf.data'')) {0, 1, 2}"
proof -
  have h1: "open_result os_map_fails \<noteq> -1" by (simp add: os_map_fails_def)
  have h2: "lseek_result os_map_fails = -1 \<or> mmap_result os_map_fails = None"
    by (simp add: os_map_fails_def)
  from CreateInstance_map_failure_releases [OF h1 h2, of "''perf.data''" "{0, 1, 2}"]
  have "fst (CreateInstance os_map_fails ''perf.data'') = None"
    and "snd (CreateInstance os_map_fails ''perf.data'') =
           [SysOpen ''perf.data'', SysLseek 3, SysMmap 4096 3, SysMunmap None 0, SysClose 3]"
    and "3 \<notin> open_after os_map_fails (snd (CreateInstance os_map_fails ''perf.data'')) {0, 1, 2}"
    by (simp_all add: os_map_fails_def)
  with h1 h2 show ?thesis by (simp add: prod_eq_iff)
qed

text \<open>
  C10: whatever \<^verbatim>\<open>munmap\<close> and \<^verbatim>\<open>close\<close> return, the reader that \<^verbatim>\<open>Close\<close> leaves has
  \<^verbatim>\<open>record_fd_\<close> equal to \<open>-1\<close>, and the destructor run on it afterwards makes no system
  call and leaves it as it is.
\<close>

theorem Close_then_destructor_idle:
  "record_fd (fst (snd (Close os r))) = -1
   \<and> destroy_RecordFileReader os' (fst (snd (Close os r))) = (fst (snd (Close os r)), [])"
  by (simp add: Close_def destroy_RecordFileReader_def Let_def)

subsection \<open>The data section: ordering\<close>

text \<open>
  C1: the comparator puts \<open>r1\<close> before \<open>r2\<close> exactly when the timestamp of \<open>r1\<close> is
  strictly smaller, or the timestamps are equal, \<open>r1\<close> is not a sample record and \<open>r2\<close> is
  one; with equal timestamps and records of the same kind it orders neither before the
  other. With \<open>fa\<close> the first attribute record of the file, \<^verbatim>\<open>DataSection\<close> returns
  the records in encounter order (what it returns with a sort that does nothing), passed
  through \<^verbatim>\<open>std::sort\<close> with this comparator when bit 2 (\<^verbatim>\<open>PERF_SAMPLE_TIME\<close>) of
  \<^verbatim>\<open>sample_type\<close> and \<^verbatim>\<open>sample_id_all\<close> are both set, and untouched otherwise.
\<close>

theorem DataSection_ordering_pass:
  assumes "attr_view m (unat (offset (attrs (header_view m)))) = Some fa"
  shows "(IsRecordHappensBefore r1 r2 \<longleftrightarrow>
            timestamp r1 < timestamp r2 \<or>
            (timestamp r1 = timestamp r2 \<and> \<not> is_sample r1 \<and> is_sample r2))
       \<and> (timestamp r1 = timestamp r2 \<and> is_sample r1 = is_sample r2 \<longrightarrow>
            \<not> IsRecordHappensBefore r1 r2 \<and> \<not> IsRecordHappensBefore r2 r1)
       \<and> DataSection std_sort rd m =
           (case DataSection (\<lambda>lt rs. rs) rd m of
              None \<Rightarrow> None
            | Some (Inl e) \<Rightarrow> Some (Inl e)
            | Some (Inr rs) \<Rightarrow>
                Some (Inr (if bit (sample_type (attr fa)) 2 \<and> sample_id_all (attr fa)
                           then std_sort IsRecordHappensBefore rs else rs)))"
proof -
  have ord: "DataSection std_sort rd m =
           (case DataSection (\<lambda>lt rs. rs) rd m of
              None \<Rightarrow> None
            | Some (Inl e) \<Rightarrow> Some (Inl e)
            | Some (Inr rs) \<Rightarrow>
                Some (Inr (if bit (sample_type (attr fa)) 2 \<and> sample_id_all (attr fa)
                           then std_sort IsRecordHappensBefore rs else rs)))"
  proof (cases "AttrSection m")
    case (Inl e)
    then show ?thesis by (simp add: DataSection_def)
  next
    case (Inr file_attrs)
    show ?thesis
    proof (cases "file_attrs")
      case Nil
      with Inr show ?thesis by (simp add: DataSection_def)
    next
      case (Cons a as)
      with Inr have "a = unat (offset (attrs (header_view m)))"
        by (rule AttrSection_first)
      with Inr Cons assms show ?thesis
        by (auto simp: DataSection_def Let_def PERF_SAMPLE_TIME_bit
              split: option.splits sum.splits)
    qed
  qed
  show ?thesis
    using ord IsRecordHappensBefore_iff [of r1 r2] IsRecordHappensBefore_iff [of r2 r1]
    by auto
qed

theorem DataSection_ordering_pass_witness:
  "DataSection fixture_sort fixture_decoder three_records =
     Some (Inr
       [\<lparr>header_type = 1, time_data_time = 3, sample_id_time = 3,
          raw = [1, 0, 0, 0, 0, 0, 9, 0, 3]\<rparr>,
        \<lparr>header_type = 9, time_data_time = 3, sample_id_time = 3,
          raw = [9, 0, 0, 0, 0, 0, 9, 0, 3]\<rparr>,
        \<lparr>header_type = 1, time_data_time = 5, sample_id_time = 5,
          raw = [1, 0, 0, 0, 0, 0, 9, 0, 5]\<rparr>])"
proof -
  have first: "attr_view three_records (unat (offset (attrs (header_view three_records))))
                 = Some timed_attr"
    by (simp add: three_records_def)
  have walk: "DataSection (\<lambda>lt rs. rs) fixture_decoder three_records =
     Some (Inr
       [\<lparr>header_type = 1, time_data_time = 5, sample_id_time = 5,
          raw = [1, 0, 0, 0, 0, 0, 9, 0, 5]\<rparr>,
        \<lparr>header_type = 1, time_data_time = 3, sample_id_time = 3,
          raw = [1, 0, 0, 0, 0, 0, 9, 0, 3]\<rparr>,
        \<lparr>header_type = 9, time_data_time = 3, sample_id_time = 3,
          raw = [9, 0, 0, 0, 0, 0, 9, 0, 3]\<rparr>])"
    by (simp add: DataSection_def AttrSection_def FileHeader_def three_records_def Let_def
          DataSection_loop.simps header_size_at_def u16_at_def bytes_at_def
          fixture_decoder_def timed_attr_def)
  have flags: "bit (sample_type (attr timed_attr)) 2 \<and> sample_id_all (attr timed_attr)"
    by (simp add: timed_attr_def)
  from DataSection_ordering_pass [OF first, of undefined undefined fixture_sort fixture_decoder]
  have "DataSection fixture_sort fixture_decoder three_records =
          (case DataSection (\<lambda>lt rs. rs) fixture_decoder three_records of
              None \<Rightarrow> None
            | Some (Inl e) \<Rightarrow> Some (Inl e)
            | Some (Inr rs) \<Rightarrow>
                Some (Inr (if bit (sample_type (attr timed_attr)) 2 \<and> sample_id_all (attr timed_attr)
                           then fixture_sort IsRecordHappensBefore rs else rs)))"
    by blast
  then show ?thesis
    unfolding walk using flags
    by (simp add: fixture_sort_def IsRecordHappensBefore_def PERF_RECORD_SAMPLE_def)
qed

subsection \<open>The data section: the attribute table must not be empty\<close>

text \<open>
  C2, as the code has it: when the attribute table is empty (\<^verbatim>\<open>attr_size\<close> is not zero
  and \<^verbatim>\<open>attrs.size / attr_size\<close> is zero), \<^verbatim>\<open>DataSection\<close> fails the fatal
  \<^verbatim>\<open>CHECK(file_attrs.size() > 0)\<close>: the process is aborted, and neither a result nor an
  error value is returned to the caller.
\<close>

theorem DataSection_no_attribute_aborts:
  assumes "attr_size (header_view m) \<noteq> 0"
      and "size' (attrs (header_view m)) div attr_size (header_view m) = 0"
  shows "DataSection std_sort rd m = Some (Inl FatalCheck)"
  using assms by (simp add: DataSection_def AttrSection_def FileHeader_def Let_def)

theorem DataSection_no_attribute_aborts_witness:
  "DataSection fixture_sort fixture_decoder short_attr_table = Some (Inl FatalCheck)"
proof -
  have h1: "attr_size (header_view short_attr_table) \<noteq> 0"
    by (simp add: short_attr_table_def)
  have h2: "size' (attrs (header_view short_attr_table))
              div attr_size (header_view short_attr_table) = 0"
    by (simp add: short_attr_table_def)
  show ?thesis by (rule DataSection_no_attribute_aborts [OF h1 h2])
qed

text \<open>
  The claim that the failure is an error reported to the caller and not the end of the
  process fails on a file whose attribute section has size 0.
\<close>

theorem DataSection_no_attribute_counterexample:
  "DataSection fixture_sort fixture_decoder empty_attr_table = Some (Inl FatalCheck)"
  by (simp add: DataSection_def AttrSection_def FileHeader_def Let_def empty_attr_table_def)

subsection \<open>The identifiers of an attribute\<close>

lemma u64_at_eq:
  "u64_at bs p = (if p + 8 \<le> length bs then Some (word_of_nat (le_nat (take 8 (drop p bs)))) else None)"
  by (simp add: u64_at_def bytes_at_def)

lemma IdsForAttr_loop_eq:
  "IdsForAttr_loop bs n p acc =
     (if n = 0 \<or> p + 8 * n \<le> length bs
      then Inr (acc @ map (\<lambda>i. word_of_nat (le_nat (take 8 (drop (p + 8 * i) bs)))) [0..<n])
      else Inl OutOfMapping)"
proof (induction n arbitrary: p acc)
  case 0
  then show ?case by simp
next
  case (Suc n)
  show ?case
  proof (cases "p + 8 \<le> length bs")
    case False
    then show ?thesis by (simp add: u64_at_eq)
  next
    case True
    then show ?thesis
      by (cases "n = 0") (simp_all add: u64_at_eq Suc.IH map_upt_Suc add.assoc del: upt_Suc)
  qed
qed

text \<open>
  C7: for every attribute record \<open>a\<close>, \<^verbatim>\<open>IdsForAttr\<close> returns \<^verbatim>\<open>a.ids.size / 8\<close>
  identifiers, the \<open>i\<close>-th being the 8-byte integer stored \<open>8 * i\<close> bytes after
  \<^verbatim>\<open>mmap_addr_ + a.ids.offset\<close>, in that order. The one other outcome is a read that
  leaves the mapping, when the identifiers do not lie inside it; whenever the call
  returns, it returns exactly \<^verbatim>\<open>a.ids.size / 8\<close> identifiers.
\<close>

theorem IdsForAttr_reads_ids:
  "IdsForAttr m a =
     (if unat (size' (ids a)) div 8 = 0
         \<or> unat (offset (ids a)) + 8 * (unat (size' (ids a)) div 8) \<le> length (bytes m)
      then Inr (map (\<lambda>i. word_of_nat
                            (le_nat (take 8 (drop (unat (offset (ids a)) + 8 * i) (bytes m)))))
                  [0..<unat (size' (ids a)) div 8])
      else Inl OutOfMapping)
   \<and> (\<forall>result. IdsForAttr m a = Inr result \<longrightarrow>
         length result = unat (size' (ids a)) div 8)"
  by (simp add: IdsForAttr_def Let_def IdsForAttr_loop_eq unat_div)

theorem IdsForAttr_reads_ids_witness:
  "IdsForAttr two_ids_file two_ids_attr = Inr [7, 0x8000000000000100]"
proof -
  have n: "unat (size' (ids two_ids_attr)) div 8 = 2"
    by (simp add: two_ids_attr_def)
  have two: "[0..<2] = [0, 1]"
    by (simp add: upt_rec)
  from IdsForAttr_reads_ids [of two_ids_file two_ids_attr]
  have "IdsForAttr two_ids_file two_ids_attr =
     (if unat (size' (ids two_ids_attr)) div 8 = 0
         \<or> unat (offset (ids two_ids_attr)) + 8 * (unat (size' (ids two_ids_attr)) div 8)
             \<le> length (bytes two_ids_file)
      then Inr (map (\<lambda>i. word_of_nat
                            (le_nat (take 8 (drop (unat (offset (ids two_ids_attr)) + 8 * i)
                               (bytes two_ids_file)))))
                  [0..<unat (size' (ids two_ids_attr)) div 8])
      else Inl OutOfMapping)"
    by (rule conjunct1)
  then show ?thesis
    unfolding n two by (simp add: two_ids_attr_def two_ids_file_def)
qed

subsection \<open>The data section: the walk\<close>

lemma header_size_at_append:
  "header_size_at (xs @ ys) (length xs + k) = header_size_at ys k"
  by (simp add: header_size_at_def u16_at_def bytes_at_def add.assoc)

lemma header_size_at_prefix:
  assumes "header_size_at r 0 = Some sz"
  shows "header_size_at (r @ rest) 0 = Some sz"
  using assms by (auto simp: header_size_at_def u16_at_def bytes_at_def split: if_splits)

lemma complete_record_size:
  assumes "complete_record r"
  shows "header_size_at (pre @ r @ rest) (length pre) = Some (word_of_nat (length r))
         \<and> unat (word_of_nat (length r) :: 16 word) = length r \<and> 0 < length r"
proof -
  from assms obtain sz where sz: "header_size_at r 0 = Some sz" "unat sz = length r"
    by (auto simp: complete_record_def split: option.splits)
  from sz(1) have "8 \<le> length r"
    by (auto simp: header_size_at_def u16_at_def bytes_at_def split: if_splits)
  moreover have "sz = word_of_nat (length r)"
    by (simp flip: sz(2))
  moreover have "header_size_at (pre @ r @ rest) (length pre + 0) = header_size_at (r @ rest) 0"
    by (rule header_size_at_append)
  ultimately show ?thesis using sz header_size_at_prefix [OF sz(1), of rest] by auto
qed

lemma DataSection_loop_step:
  assumes "p < end'" and "header_size_at bs p = Some sz" and "end' \<le> length bs"
  shows "DataSection_loop bs decode end' p acc =
           DataSection_loop bs decode end' (p + unat sz)
             (if unat sz \<le> end' - p then acc @ [decode (take (unat sz) (drop p bs))] else acc)"
  using assms by (subst DataSection_loop.simps) (auto simp: le_diff_conv bytes_at_def)

lemma DataSection_loop_done:
  assumes "\<not> p < end'"
  shows "DataSection_loop bs decode end' p acc = Some (Inr acc)"
  using assms by (subst DataSection_loop.simps) simp

lemma DataSection_loop_complete_records:
  assumes "\<forall>r\<in>set rs. complete_record r"
      and "t = [] \<or> truncated_record t post"
  shows "DataSection_loop (pre @ concat rs @ t @ post) decode
           (length pre + length (concat rs @ t)) (length pre) acc
         = Some (Inr (acc @ map decode rs))"
  using assms(1)
proof (induction rs arbitrary: pre acc)
  case Nil
  show ?case
  proof (cases "t = []")
    case True
    then show ?thesis by (simp add: DataSection_loop_done)
  next
    case False
    with assms(2) obtain sz where sz: "header_size_at (t @ post) 0 = Some sz" "length t < unat sz"
      by (auto simp: truncated_record_def split: option.splits)
    have "header_size_at (pre @ t @ post) (length pre + 0) = header_size_at (t @ post) 0"
      by (rule header_size_at_append)
    with sz have at: "header_size_at (pre @ t @ post) (length pre) = Some sz" by simp
    from False have lt: "length pre < length pre + length t" by simp
    have "DataSection_loop (pre @ t @ post) decode (length pre + length t) (length pre) acc
          = DataSection_loop (pre @ t @ post) decode (length pre + length t)
              (length pre + unat sz) acc"
      using DataSection_loop_step [OF lt at, of decode acc] sz(2) by simp
    also have "\<dots> = Some (Inr acc)"
      using sz(2) by (intro DataSection_loop_done) simp
    finally show ?thesis by simp
  qed
next
  case (Cons r rs)
  then have r: "complete_record r" and rs: "\<forall>r\<in>set rs. complete_record r" by simp_all
  let ?rest = "concat rs @ t @ post"
  let ?end = "length pre + length (concat (r # rs) @ t)"
  from complete_record_size [OF r, of pre ?rest]
  have at: "header_size_at (pre @ r @ ?rest) (length pre) = Some (word_of_nat (length r))"
    and un: "unat (word_of_nat (length r) :: 16 word) = length r" and pos: "0 < length r"
    by simp_all
  from pos have lt: "length pre < ?end" by simp
  have "DataSection_loop (pre @ r @ ?rest) decode ?end (length pre) acc
        = DataSection_loop (pre @ r @ ?rest) decode ?end (length pre + length r)
            (acc @ [decode r])"
    using DataSection_loop_step [OF lt at, of decode acc] un by simp
  also have "\<dots> = DataSection_loop ((pre @ r) @ ?rest) decode
                      (length (pre @ r) + length (concat rs @ t)) (length (pre @ r))
                      (acc @ [decode r])"
    by (simp add: add.assoc)
  also have "\<dots> = Some (Inr ((acc @ [decode r]) @ map decode rs))"
    by (rule Cons.IH [OF rs])
  finally show ?case by simp
qed

lemma cursors_ge:
  assumes "p \<in> cursors bs end' start"
  shows "start \<le> p"
  using assms by (induction rule: cursors.induct) simp_all

lemma cursors_done:
  assumes "\<not> start < end'"
  shows "cursors bs end' start = {start}"
proof
  show "cursors bs end' start \<subseteq> {start}"
  proof
    fix p assume "p \<in> cursors bs end' start"
    then show "p \<in> {start}"
      using assms by (induction rule: cursors.induct) simp_all
  qed
  show "{start} \<subseteq> cursors bs end' start"
    by (simp add: cursors.start)
qed

lemma cursors_step:
  assumes "start < end'" and "header_size_at bs start = Some sz"
  shows "cursors bs end' start = insert start (cursors bs end' (start + unat sz))"
proof
  show "cursors bs end' start \<subseteq> insert start (cursors bs end' (start + unat sz))"
  proof
    fix p assume "p \<in> cursors bs end' start"
    then show "p \<in> insert start (cursors bs end' (start + unat sz))"
    proof (induction rule: cursors.induct)
      case start
      show ?case by simp
    next
      case (advance p sz')
      show ?case
      proof (cases "p = start")
        case True
        with advance(3) assms(2) have "sz' = sz" by simp
        with True show ?thesis by (simp add: cursors.start)
      next
        case False
        with advance(4) have "p \<in> cursors bs end' (start + unat sz)" by simp
        from cursors.advance [OF this advance(2,3)] show ?thesis by simp
      qed
    qed
  qed
  show "insert start (cursors bs end' (start + unat sz)) \<subseteq> cursors bs end' start"
  proof -
    have "p \<in> cursors bs end' start" if "p \<in> cursors bs end' (start + unat sz)" for p
      using that
    proof (induction rule: cursors.induct)
      case start
      show ?case by (rule cursors.advance [OF cursors.start assms])
    next
      case (advance p sz')
      from cursors.advance [OF advance(4) advance(2,3)] show ?case .
    qed
    then show ?thesis by (auto simp: cursors.start)
  qed
qed

lemma length_prefixes_done:
  assumes "\<not> start < end'"
  shows "length_prefixes bs end' start = {}"
  using assms by (auto simp: length_prefixes_def cursors_done)

lemma length_prefixes_step:
  assumes "start < end'" and "header_size_at bs start = Some sz" and "0 < unat sz"
  shows "length_prefixes bs end' start = insert start (length_prefixes bs end' (start + unat sz))"
    and "start \<notin> length_prefixes bs end' (start + unat sz)"
proof -
  show "length_prefixes bs end' start = insert start (length_prefixes bs end' (start + unat sz))"
    using assms(1) by (auto simp: length_prefixes_def cursors_step [OF assms(1,2)])
  show "start \<notin> length_prefixes bs end' (start + unat sz)"
    using assms(3) by (auto simp: length_prefixes_def dest: cursors_ge)
qed

lemma length_prefixes_complete_records:
  assumes "\<forall>r\<in>set rs. complete_record r"
      and "t = [] \<or> truncated_record t post"
  shows "finite (length_prefixes (pre @ concat rs @ t @ post)
                   (length pre + length (concat rs @ t)) (length pre))
       \<and> card (length_prefixes (pre @ concat rs @ t @ post)
                   (length pre + length (concat rs @ t)) (length pre))
           = length rs + (if t = [] then 0 else 1)"
  using assms(1)
proof (induction rs arbitrary: pre)
  case Nil
  show ?case
  proof (cases "t = []")
    case True
    then show ?thesis by (simp add: length_prefixes_done)
  next
    case False
    with assms(2) obtain sz where sz: "header_size_at (t @ post) 0 = Some sz" "length t < unat sz"
      by (auto simp: truncated_record_def split: option.splits)
    have "header_size_at (pre @ t @ post) (length pre + 0) = header_size_at (t @ post) 0"
      by (rule header_size_at_append)
    with sz have at: "header_size_at (pre @ t @ post) (length pre) = Some sz" by simp
    from False have lt: "length pre < length pre + length t" by simp
    from sz(2) have pos: "0 < unat sz" by simp
    have "length_prefixes (pre @ t @ post) (length pre + length t) (length pre)
          = insert (length pre)
              (length_prefixes (pre @ t @ post) (length pre + length t) (length pre + unat sz))"
      by (rule length_prefixes_step(1) [OF lt at pos])
    also have "\<dots> = {length pre}"
      using sz(2) by (simp add: length_prefixes_done)
    finally show ?thesis using False by simp
  qed
next
  case (Cons r rs)
  then have r: "complete_record r" and rs: "\<forall>r\<in>set rs. complete_record r" by simp_all
  let ?rest = "concat rs @ t @ post"
  let ?bs = "pre @ r @ ?rest"
  let ?end = "length pre + length (concat (r # rs) @ t)"
  from complete_record_size [OF r, of pre ?rest]
  have at: "header_size_at ?bs (length pre) = Some (word_of_nat (length r))"
    and un: "unat (word_of_nat (length r) :: 16 word) = length r" and pos: "0 < length r"
    by simp_all
  from pos have lt: "length pre < ?end" by simp
  from pos un have pos': "0 < unat (word_of_nat (length r) :: 16 word)" by simp
  have same: "length_prefixes ?bs ?end (length pre + length r)
              = length_prefixes ((pre @ r) @ ?rest)
                  (length (pre @ r) + length (concat rs @ t)) (length (pre @ r))"
    by (simp add: add.assoc)
  from Cons.IH [OF rs, of "pre @ r"] same
  have fin: "finite (length_prefixes ?bs ?end (length pre + length r))"
    and crd: "card (length_prefixes ?bs ?end (length pre + length r))
                = length rs + (if t = [] then 0 else 1)"
    by simp_all
  from length_prefixes_step [OF lt at pos'] un
  have ins: "length_prefixes ?bs ?end (length pre)
               = insert (length pre) (length_prefixes ?bs ?end (length pre + length r))"
    and fresh: "length pre \<notin> length_prefixes ?bs ?end (length pre + length r)"
    by simp_all
  from fin fresh crd have "finite (length_prefixes ?bs ?end (length pre))
      \<and> card (length_prefixes ?bs ?end (length pre)) = length (r # rs) + (if t = [] then 0 else 1)"
    unfolding ins by simp
  then show ?case by simp
qed

lemma data_region_pointers:
  fixes b off sz :: "64 word"
  assumes "unat b + unat off + unat sz < 2 ^ 64"
  shows "(b + off < b + off + sz) = (sz \<noteq> 0)"
    and "unat (b + off - b) = unat off"
    and "unat (b + off + sz - (b + off)) = unat sz"
proof -
  from assms have "unat b + unat off < 2 ^ LENGTH(64)" by simp
  then have p: "unat (b + off) = unat b + unat off"
    by (simp only: unat_add_lem)
  with assms have "unat (b + off) + unat sz < 2 ^ LENGTH(64)" by simp
  then have e: "unat (b + off + sz) = unat (b + off) + unat sz"
    by (simp only: unat_add_lem)
  show "(b + off < b + off + sz) = (sz \<noteq> 0)"
    by (simp add: word_less_nat_alt e unat_gt_0)
  show "unat (b + off - b) = unat off" by simp
  show "unat (b + off + sz - (b + off)) = unat sz" by simp
qed

text \<open>
  C3: at a cursor \<open>p\<close> inside a region of the mapping the declared length \<open>len\<close> is
  read from the header there; the walk goes on from \<open>p + len\<close>, with one decoded record
  appended when the bytes left to the end of the region are at least \<open>len\<close> and with
  the records unchanged, and no error, when they are not. \<^verbatim>\<open>DataSection\<close> walks the
  region from \<^verbatim>\<open>data.offset\<close> to \<^verbatim>\<open>data.offset + data.size\<close>: when the file has an
  attribute and the region is made of complete records \<open>rs\<close> and then either of nothing
  or of a last record \<open>t\<close> that declares more bytes than are left, it returns the decoded
  \<open>rs\<close>, in their order before the ordering pass. That is as many records as there are
  length prefixes in the region when nothing is truncated, and one fewer when the last
  record is.
\<close>

theorem DataSection_drops_truncated:
  assumes table: "attr_size (header_view m) \<noteq> 0"
      and nonempty: "size' (attrs (header_view m)) div attr_size (header_view m) \<noteq> 0"
      and first: "attr_view m (unat (offset (attrs (header_view m)))) = Some fa"
      and layout: "bytes m = pre @ concat rs @ t @ post"
      and off: "unat (offset (data (header_view m))) = length pre"
      and sz: "unat (size' (data (header_view m))) = length (concat rs @ t)"
      and fits: "unat (base_addr m) + length (bytes m) < 2 ^ 64"
      and complete: "\<forall>r\<in>set rs. complete_record r"
      and last: "t = [] \<or> truncated_record t post"
  shows "(p < end' \<and> header_size_at bs p = Some len \<and> end' \<le> length bs \<longrightarrow>
            DataSection_loop bs decode end' p acc =
              DataSection_loop bs decode end' (p + unat len)
                (if unat len \<le> end' - p then acc @ [decode (take (unat len) (drop p bs))]
                 else acc))
       \<and> DataSection std_sort rd m =
           Some (Inr (if bit (sample_type (attr fa)) 2 \<and> sample_id_all (attr fa)
                      then std_sort IsRecordHappensBefore (map (rd (attr fa)) rs)
                      else map (rd (attr fa)) rs))
       \<and> card (length_prefixes (bytes m) (length pre + length (concat rs @ t)) (length pre))
           = length rs + (if t = [] then 0 else 1)
       \<and> ((\<forall>xs. length (std_sort IsRecordHappensBefore xs) = length xs) \<longrightarrow>
           (\<exists>result. DataSection std_sort rd m = Some (Inr result)
              \<and> length result + (if t = [] then 0 else 1)
                  = card (length_prefixes (bytes m) (length pre + length (concat rs @ t))
                            (length pre))))"
proof -
  let ?h = "header_view m"
  let ?b = "base_addr m"
  let ?o = "offset (data ?h)"
  let ?s = "size' (data ?h)"
  let ?recs = "map (rd (attr fa)) rs"
  let ?end = "length pre + length (concat rs @ t)"
  have step: "p < end' \<and> header_size_at bs p = Some len \<and> end' \<le> length bs \<longrightarrow>
            DataSection_loop bs decode end' p acc =
              DataSection_loop bs decode end' (p + unat len)
                (if unat len \<le> end' - p then acc @ [decode (take (unat len) (drop p bs))]
                 else acc)"
    using DataSection_loop_step [of p end' bs len decode acc] by simp
  from table nonempty obtain a as where attrs: "AttrSection m = Inr (a # as)"
    by (cases "unat (size' (attrs ?h) div attr_size ?h)")
       (auto simp: AttrSection_def FileHeader_def Let_def upt_conv_Cons unat_eq_zero
             simp del: upt_Suc)
  from AttrSection_first [OF attrs refl] first have fa: "attr_view m a = Some fa" by simp
  from layout off sz fits have nowrap: "unat ?b + unat ?o + unat ?s < 2 ^ 64" by simp
  note ptr = data_region_pointers [OF nowrap]
  have walk: "(if ?b + ?o < ?b + ?o + ?s
               then DataSection_loop (bytes m) (rd (attr fa))
                      (unat (?b + ?o - ?b) + unat (?b + ?o + ?s - (?b + ?o)))
                      (unat (?b + ?o - ?b)) []
               else Some (Inr [])) = Some (Inr ?recs)"
  proof (cases "?s = 0")
    case True
    with sz have "rs = [] \<or> (\<forall>r\<in>set rs. r = [])" and "t = []" by auto
    with complete have "rs = []"
      by (cases rs) (auto simp: complete_record_def header_size_at_def u16_at_def bytes_at_def)
    with True ptr(1) show ?thesis by simp
  next
    case False
    with ptr off sz layout
      DataSection_loop_complete_records [OF complete last, of pre "rd (attr fa)" "[]"]
    show ?thesis by simp
  qed
  have run: "DataSection std_sort rd m =
           Some (Inr (if bit (sample_type (attr fa)) 2 \<and> sample_id_all (attr fa)
                      then std_sort IsRecordHappensBefore ?recs else ?recs))"
    using attrs fa walk
    by (simp add: DataSection_def FileHeader_def Let_def PERF_SAMPLE_TIME_bit)
  have count: "card (length_prefixes (bytes m) ?end (length pre))
                 = length rs + (if t = [] then 0 else 1)"
    using length_prefixes_complete_records [OF complete last, of pre] layout by simp
  have sorted: "(\<forall>xs. length (std_sort IsRecordHappensBefore xs) = length xs) \<longrightarrow>
           (\<exists>result. DataSection std_sort rd m = Some (Inr result)
              \<and> length result + (if t = [] then 0 else 1)
                  = card (length_prefixes (bytes m) ?end (length pre)))"
    unfolding run count by simp
  from step run count sorted show ?thesis by blast
qed

theorem DataSection_drops_truncated_witness:
  "DataSection fixture_sort fixture_decoder truncated_file =
     Some (Inr
       [\<lparr>header_type = 1, time_data_time = 5, sample_id_time = 5,
          raw = [1, 0, 0, 0, 0, 0, 9, 0, 5]\<rparr>,
        \<lparr>header_type = 9, time_data_time = 3, sample_id_time = 3,
          raw = [9, 0, 0, 0, 0, 0, 9, 0, 3]\<rparr>])
   \<and> card (length_prefixes (bytes truncated_file) 30 4) = 3"
proof -
  let ?pre = "[0, 0, 0, 0 :: byte]"
  let ?rs = "[[1, 0, 0, 0, 0, 0, 9, 0, 5], [9, 0, 0, 0, 0, 0, 9, 0, 3 :: byte]]"
  let ?t = "[1, 0, 0, 0, 0, 0, 9, 0 :: byte]"
  have table: "attr_size (header_view truncated_file) \<noteq> 0"
    and nonempty: "size' (attrs (header_view truncated_file))
                     div attr_size (header_view truncated_file) \<noteq> 0"
    and first: "attr_view truncated_file (unat (offset (attrs (header_view truncated_file))))
                  = Some plain_attr"
    and layout: "bytes truncated_file = ?pre @ concat ?rs @ ?t @ []"
    and off: "unat (offset (data (header_view truncated_file))) = length ?pre"
    and sz: "unat (size' (data (header_view truncated_file))) = length (concat ?rs @ ?t)"
    and fits: "unat (base_addr truncated_file) + length (bytes truncated_file) < 2 ^ 64"
    by (simp_all add: truncated_file_def truncated_region_def)
  have complete: "\<forall>r\<in>set ?rs. complete_record r"
    by (simp add: complete_record_def header_size_at_def u16_at_def bytes_at_def)
  have last: "?t = [] \<or> truncated_record ?t []"
    by (simp add: truncated_record_def header_size_at_def u16_at_def bytes_at_def)
  note walked = DataSection_drops_truncated
    [OF table nonempty first layout off sz fits complete last,
     where std_sort = fixture_sort and rd = fixture_decoder]
  from walked have "DataSection fixture_sort fixture_decoder truncated_file =
      Some (Inr (if bit (sample_type (attr plain_attr)) 2 \<and> sample_id_all (attr plain_attr)
                 then fixture_sort IsRecordHappensBefore
                        (map (fixture_decoder (attr plain_attr)) ?rs)
                 else map (fixture_decoder (attr plain_attr)) ?rs))"
    by (rule conjunct2 [THEN conjunct1])
  then have run: "DataSection fixture_sort fixture_decoder truncated_file =
     Some (Inr
       [\<lparr>header_type = 1, time_data_time = 5, sample_id_time = 5,
          raw = [1, 0, 0, 0, 0, 0, 9, 0, 5]\<rparr>,
        \<lparr>header_type = 9, time_data_time = 3, sample_id_time = 3,
          raw = [9, 0, 0, 0, 0, 0, 9, 0, 3]\<rparr>])"
    by (simp add: plain_attr_def fixture_decoder_def)
  from walked have "card (length_prefixes (bytes truncated_file)
                      (length ?pre + length (concat ?rs @ ?t)) (length ?pre))
                    = length ?rs + (if ?t = [] then 0 else 1)"
    by (rule conjunct2 [THEN conjunct2, THEN conjunct1])
  moreover have "length ?pre + length (concat ?rs @ ?t) = 30" and "length ?pre = 4"
    by simp_all
  ultimately have "card (length_prefixes (bytes truncated_file) 30 4)
                    = length ?rs + (if ?t = [] then 0 else 1)"
    by (simp only:)
  with run show ?thesis by simp
qed

text \<open>
  Where the sum for \<open>end\<close> wraps, \<open>end\<close> lies below \<open>p\<close>, the loop is not entered and no
  record is materialized.
\<close>

lemma DataSection_wrapped_end:
  "DataSection (\<lambda>lt rs. rs) fixture_decoder wrapping_size_file = Some (Inr [])"
  by (simp add: DataSection_def AttrSection_def FileHeader_def Let_def wrapping_size_file_def
        three_records_def)

subsection \<open>The data section: termination of the walk\<close>

lemma DataSection_loop_stuck:
  assumes "DataSection_loop bs decode end' p acc = Some y"
  shows "\<not> (p < end' \<and> header_size_at bs p = Some 0)"
proof (rule DataSection_loop.raw_induct
    [where P = "\<lambda>bs decode e p acc y. \<not> (p < e \<and> header_size_at bs p = Some 0)", OF _ assms])
  fix loop :: "byte list \<Rightarrow> (byte list \<Rightarrow> Record) \<Rightarrow> nat \<Rightarrow> nat \<Rightarrow> Record list
                 \<Rightarrow> (error + Record list) option"
    and bs decode e p acc y
  assume IH: "\<And>bs decode e p acc y. loop bs decode e p acc = Some y
                \<Longrightarrow> \<not> (p < e \<and> header_size_at bs p = Some 0)"
    and body: "(if p < e then
        (case header_size_at bs p of
           None \<Rightarrow> Some (Inl OutOfMapping)
         | Some sz \<Rightarrow>
             if p + unat sz \<le> e then
               (case bytes_at bs p (unat sz) of
                  None \<Rightarrow> Some (Inl OutOfMapping)
                | Some buf \<Rightarrow> loop bs decode e (p + unat sz) (acc @ [decode buf]))
             else loop bs decode e (p + unat sz) acc)
      else Some (Inr acc)) = Some y"
  show "\<not> (p < e \<and> header_size_at bs p = Some 0)"
  proof
    assume stuck: "p < e \<and> header_size_at bs p = Some 0"
    then have "p \<le> length bs"
      by (auto simp: header_size_at_def u16_at_def bytes_at_def split: if_splits)
    with body stuck have "loop bs decode e p (acc @ [decode []]) = Some y"
      by (simp add: bytes_at_def)
    from IH [OF this] stuck show False by simp
  qed
qed

lemma DataSection_loop_reaches:
  assumes "p \<in> cursors bs end' start" and inside: "end' \<le> length bs"
  shows "\<exists>acc'. DataSection_loop bs decode end' start acc = DataSection_loop bs decode end' p acc'"
  using assms(1)
proof (induction rule: cursors.induct)
  case start
  show ?case by blast
next
  case (advance p sz)
  then obtain acc' where
    "DataSection_loop bs decode end' start acc = DataSection_loop bs decode end' p acc'"
    by blast
  also from advance(2,3) inside have "\<dots> = DataSection_loop bs decode end' (p + unat sz)
      (if unat sz \<le> end' - p then acc' @ [decode (take (unat sz) (drop p bs))] else acc')"
    by (rule DataSection_loop_step)
  finally show ?case by blast
qed

lemma DataSection_loop_returns:
  assumes pos: "\<forall>q\<in>cursors bs end' start. q < end' \<longrightarrow>
                  (\<exists>sz. header_size_at bs q = Some sz \<and> sz \<noteq> 0)"
      and "p \<in> cursors bs end' start"
      and inside: "end' \<le> length bs"
  shows "\<exists>result. DataSection_loop bs decode end' p acc = Some (Inr result)"
  using assms(2)
proof (induction "end' - p" arbitrary: p acc rule: less_induct)
  case less
  show ?case
  proof (cases "p < end'")
    case False
    then show ?thesis by (subst DataSection_loop.simps) simp
  next
    case True
    with pos less.prems obtain sz where sz: "header_size_at bs p = Some sz" "sz \<noteq> 0"
      by blast
    then have "0 < unat sz" by (simp add: unat_gt_0)
    with True have smaller: "end' - (p + unat sz) < end' - p" by arith
    from less.prems True sz(1) have next_in: "p + unat sz \<in> cursors bs end' start"
      by (rule cursors.advance)
    have "DataSection_loop bs decode end' p acc = DataSection_loop bs decode end' (p + unat sz)
      (if unat sz \<le> end' - p then acc @ [decode (take (unat sz) (drop p bs))] else acc)"
      using True sz(1) inside by (rule DataSection_loop_step)
    with less.hyps [OF smaller next_in] show ?thesis by simp
  qed
qed

text \<open>
  C9: for a data region inside the mapping, when the length prefix at every cursor
  position the walk reaches inside the region is strictly positive, the loop returns,
  since the cursor moves forward each time round; when the prefix at one such position
  is zero, the cursor stays there and the loop never returns.
\<close>

theorem DataSection_loop_terminates:
  assumes "end' \<le> length bs"
  shows "((\<forall>p\<in>cursors bs end' start. p < end' \<longrightarrow>
             (\<exists>sz. header_size_at bs p = Some sz \<and> sz \<noteq> 0))
           \<longrightarrow> (\<exists>result. DataSection_loop bs decode end' start acc = Some (Inr result)))
       \<and> ((\<exists>p\<in>cursors bs end' start. p < end' \<and> header_size_at bs p = Some 0)
           \<longrightarrow> DataSection_loop bs decode end' start acc = None)"
proof (intro conjI impI)
  assume "\<forall>p\<in>cursors bs end' start. p < end' \<longrightarrow>
            (\<exists>sz. header_size_at bs p = Some sz \<and> sz \<noteq> 0)"
  then show "\<exists>result. DataSection_loop bs decode end' start acc = Some (Inr result)"
    using cursors.start assms by (rule DataSection_loop_returns)
next
  assume "\<exists>p\<in>cursors bs end' start. p < end' \<and> header_size_at bs p = Some 0"
  then obtain p where p: "p \<in> cursors bs end' start" "p < end'" "header_size_at bs p = Some 0"
    by blast
  from DataSection_loop_reaches [OF p(1) assms] obtain acc' where
    eq: "DataSection_loop bs decode end' start acc = DataSection_loop bs decode end' p acc'"
    by blast
  have "DataSection_loop bs decode end' p acc' = None"
  proof (cases "DataSection_loop bs decode end' p acc'")
    case None
    then show ?thesis .
  next
    case (Some y)
    from DataSection_loop_stuck [OF this] p show ?thesis by simp
  qed
  with eq show "DataSection_loop bs decode end' start acc = None" by simp
qed

theorem DataSection_loop_terminates_witness:
  "(\<exists>result. DataSection_loop (bytes three_records) (fixture_decoder (attr timed_attr)) 31 4 []
       = Some (Inr result))
   \<and> DataSection_loop zero_length_region (fixture_decoder (attr timed_attr)) 22 4 [] = None"
proof -
  let ?bs = "bytes three_records"
  have s4: "header_size_at ?bs 4 = Some 9" and s13: "header_size_at ?bs 13 = Some 9"
    and s22: "header_size_at ?bs 22 = Some 9"
    by (simp_all add: three_records_def header_size_at_def u16_at_def bytes_at_def)
  have "cursors ?bs 31 4 = {4, 13, 22, 31}"
    using cursors_step [of 4 31 ?bs 9] cursors_step [of 13 31 ?bs 9]
      cursors_step [of 22 31 ?bs 9] cursors_done [of 31 31 ?bs] s4 s13 s22
    by simp
  with s4 s13 s22 have positive: "\<forall>p\<in>cursors ?bs 31 4. p < 31 \<longrightarrow>
      (\<exists>sz. header_size_at ?bs p = Some sz \<and> sz \<noteq> 0)"
    by simp
  have z13: "header_size_at zero_length_region 13 = Some 0"
    and z4: "header_size_at zero_length_region 4 = Some 9"
    by (simp_all add: zero_length_region_def header_size_at_def u16_at_def bytes_at_def)
  have "13 \<in> cursors zero_length_region 22 4"
    using cursors.advance [OF cursors.start, of 4 22 zero_length_region 9] z4 by simp
  with z13 have zero: "\<exists>p\<in>cursors zero_length_region 22 4.
      p < 22 \<and> header_size_at zero_length_region p = Some 0"
    by (intro bexI [of _ 13]) simp_all
  have in1: "31 \<le> length ?bs" and in2: "22 \<le> length zero_length_region"
    by (simp_all add: three_records_def zero_length_region_def)
  from DataSection_loop_terminates [OF in1, of 4 "fixture_decoder (attr timed_attr)" "[]"] positive
  have "\<exists>result. DataSection_loop ?bs (fixture_decoder (attr timed_attr)) 31 4 []
       = Some (Inr result)"
    by blast
  moreover
  from DataSection_loop_terminates [OF in2, of 4 "fixture_decoder (attr timed_attr)" "[]"] zero
  have "DataSection_loop zero_length_region (fixture_decoder (attr timed_attr)) 22 4 [] = None"
    by blast
  ultimately show ?thesis by simp
qed

subsection \<open>The feature sections\<close>

lemma feature_bit_test: "(uint b AND push_bit j 1 \<noteq> 0) = bit b j"
  for b :: byte
proof -
  have "(uint b AND 2 ^ j \<noteq> 0) = bit (uint b) j"
    by (simp only: and_exp_eq_0_iff_not_bit not_not)
  then show ?thesis
    by (auto simp: bit_uint_iff push_bit_eq_mult dest: bit_imp_le_length)
qed

lemma fold_append_if:
  "fold (\<lambda>j fs. if P j then fs @ [f j] else fs) xs fs = fs @ map f (filter P xs)"
  by (induction xs arbitrary: fs) simp_all

lemma fold_append_concat:
  "fold (\<lambda>i fs. fs @ g i) xs fs = fs @ concat (map g xs)"
  by (induction xs arbitrary: fs) simp_all

lemma features_of_byte_eq:
  "features_of_byte b i fs = fs @ map (\<lambda>j. int (i * 8 + j)) (filter (\<lambda>j. bit b j) [0..<8])"
  unfolding features_of_byte_def feature_bit_test by (rule fold_append_if)

lemma scan_features_eq: "scan_features fb = map int (feature_ids fb)"
  unfolding scan_features_def features_of_byte_eq feature_ids_def
  by (simp add: fold_append_concat map_concat comp_def)

lemma feature_ids_filter:
  "feature_ids fb = filter (\<lambda>k. bit (fb ! (k div 8)) (k mod 8)) [0..<8 * length fb]"
proof -
  have "concat (map (\<lambda>i. map (\<lambda>j. i * 8 + j) (filter (\<lambda>j. bit (fb ! i) j) [0..<8])) [0..<n])
        = filter (\<lambda>k. bit (fb ! (k div 8)) (k mod 8)) [0..<8 * n]" for n
  proof (induction n)
    case 0
    show ?case by simp
  next
    case (Suc n)
    have "[0..<8 * n + 8] = [0..<8 * n] @ [8 * n..<8 * n + 8]"
      by (rule upt_add_eq_append) simp
    then have split: "[0..<8 * Suc n] = [0..<8 * n] @ map (\<lambda>j. j + 8 * n) [0..<8]"
      by (simp add: map_add_upt add.commute)
    have seg: "filter (\<lambda>k. bit (fb ! (k div 8)) (k mod 8)) (map (\<lambda>j. j + 8 * n) [0..<8])
          = map (\<lambda>j. j + 8 * n) (filter (\<lambda>j. bit (fb ! n) j) [0..<8])"
      unfolding filter_map by (rule arg_cong [where f = "map _"], rule filter_cong) auto
    have "concat (map (\<lambda>i. map (\<lambda>j. i * 8 + j) (filter (\<lambda>j. bit (fb ! i) j) [0..<8])) [0..<Suc n])
          = concat (map (\<lambda>i. map (\<lambda>j. i * 8 + j) (filter (\<lambda>j. bit (fb ! i) j) [0..<8])) [0..<n])
            @ map (\<lambda>j. n * 8 + j) (filter (\<lambda>j. bit (fb ! n) j) [0..<8])"
      by simp
    also have "\<dots> = filter (\<lambda>k. bit (fb ! (k div 8)) (k mod 8)) [0..<8 * n]
            @ map (\<lambda>j. j + 8 * n) (filter (\<lambda>j. bit (fb ! n) j) [0..<8])"
      using Suc.IH by (simp add: ac_simps)
    also have "\<dots> = filter (\<lambda>k. bit (fb ! (k div 8)) (k mod 8)) [0..<8 * Suc n]"
      by (simp only: split filter_append seg)
    finally show ?case .
  qed
  then show ?thesis by (simp add: feature_ids_def)
qed

lemma feature_ids_sorted: "sorted_wrt (<) (map int (feature_ids fb))"
  by (simp add: feature_ids_filter sorted_wrt_map sorted_wrt_filter)

lemma feature_ids_set:
  "set (feature_ids fb) = {i * 8 + j | i j. i < length fb \<and> j < 8 \<and> bit (fb ! i) j}"
  by (fastforce simp: feature_ids_def)

lemma SectionDesc_at_eq:
  "SectionDesc_at bs p =
     (if p + 16 \<le> length bs
      then Some \<lparr>offset = word_of_nat (le_nat (take 8 (drop p bs))),
                 size' = word_of_nat (le_nat (take 8 (drop (p + 8) bs)))\<rparr>
      else None)"
  by (simp add: SectionDesc_at_def u64_at_eq)

lemma map_insert_append:
  assumes "\<forall>k'\<in>fst ` set m. k' < k"
  shows "map_insert k v m = m @ [(k, v)]"
  using assms by (induction m) auto

lemma descriptor_table_Suc:
  "descriptor_table bs p (Suc n) =
     \<lparr>offset = word_of_nat (le_nat (take 8 (drop p bs))),
      size' = word_of_nat (le_nat (take 8 (drop (p + 8) bs)))\<rparr>
     # descriptor_table bs (p + 16) n"
  by (simp add: descriptor_table_def map_upt_Suc add.assoc del: upt_Suc)

lemma insert_sections_eq:
  assumes "sorted_wrt (<) ks"
      and "\<forall>k'\<in>fst ` set m. \<forall>k\<in>set ks. k' < k"
      and "p + 16 * length ks \<le> length bs"
  shows "insert_sections bs ks p m = Inr (m @ zip ks (descriptor_table bs p (length ks)))"
  using assms
proof (induction ks arbitrary: p m)
  case Nil
  show ?case by (simp add: descriptor_table_def)
next
  case (Cons k ks)
  let ?d = "\<lparr>offset = word_of_nat (le_nat (take 8 (drop p bs))),
             size' = word_of_nat (le_nat (take 8 (drop (p + 8) bs)))\<rparr>"
  from Cons.prems(3) have here: "SectionDesc_at bs p = Some ?d"
    by (simp add: SectionDesc_at_eq)
  from Cons.prems(2) have ins: "map_insert k ?d m = m @ [(k, ?d)]"
    by (intro map_insert_append) simp
  from Cons.prems(1) have sorted: "sorted_wrt (<) ks" and above: "\<forall>k'\<in>set ks. k < k'"
    by simp_all
  from Cons.prems(2) above have below: "\<forall>k'\<in>fst ` set (m @ [(k, ?d)]). \<forall>k\<in>set ks. k' < k"
    by auto
  from Cons.prems(3) have room: "p + 16 + 16 * length ks \<le> length bs" by simp
  have "insert_sections bs (k # ks) p m = insert_sections bs ks (p + 16) (m @ [(k, ?d)])"
    by (simp add: here ins)
  also have "\<dots> = Inr ((m @ [(k, ?d)]) @ zip ks (descriptor_table bs (p + 16) (length ks)))"
    by (rule Cons.IH [OF sorted below room])
  finally show ?case by (simp add: descriptor_table_Suc)
qed

text \<open>
  C4: on a reader whose map is still empty, and with the descriptor table inside the
  mapping, \<^verbatim>\<open>FeatureSectionDescriptors\<close> returns (and stores) the map that pairs the
  \<open>n\<close>-th feature id with the \<open>n\<close>-th descriptor read from
  \<^verbatim>\<open>data.offset + data.size\<close> on. The ids are \<open>byte * 8 + bit\<close> for exactly the set bits
  of the bitmap, in increasing order, so the keys of the map are exactly these ids and
  each id finds its own descriptor.
\<close>

theorem FeatureSectionDescriptors_table:
  assumes "feature_sections r = []"
      and "unat (offset (data (header_view m)) + size' (data (header_view m)))
             + 16 * length (feature_ids (features (header_view m))) \<le> length (bytes m)"
  shows "let ids = feature_ids (features (header_view m));
             table = descriptor_table (bytes m)
                       (unat (offset (data (header_view m)) + size' (data (header_view m))))
                       (length ids);
             sections = zip (map int ids) table
         in FeatureSectionDescriptors r m = Inr (sections, r\<lparr>feature_sections := sections\<rparr>)
            \<and> set ids = {i * 8 + j | i j. i < length (features (header_view m)) \<and> j < 8
                                        \<and> bit (features (header_view m) ! i) j}
            \<and> sorted_wrt (<) ids
            \<and> (\<forall>n<length ids. map_of sections (int (ids ! n)) = Some (table ! n))
            \<and> dom (map_of sections) = int ` set ids"
proof -
  let ?ids = "feature_ids (features (header_view m))"
  let ?p = "unat (offset (data (header_view m)) + size' (data (header_view m)))"
  let ?table = "descriptor_table (bytes m) ?p (length ?ids)"
  let ?sections = "zip (map int ?ids) ?table"
  have len: "length ?table = length ?ids" by (simp add: descriptor_table_def)
  have sorted: "sorted_wrt (<) (map int ?ids)" by (rule feature_ids_sorted)
  then have dist: "distinct (map int ?ids)" by (simp add: strict_sorted_iff)
  have "insert_sections (bytes m) (map int ?ids) ?p [] = Inr ([] @ zip (map int ?ids)
          (descriptor_table (bytes m) ?p (length (map int ?ids))))"
    using sorted assms(2) by (intro insert_sections_eq) simp_all
  then have run: "FeatureSectionDescriptors r m = Inr (?sections, r\<lparr>feature_sections := ?sections\<rparr>)"
    using assms(1) by (simp add: FeatureSectionDescriptors_def FileHeader_def Let_def scan_features_eq)
  have nth: "\<forall>n<length ?ids. map_of ?sections (int (?ids ! n)) = Some (?table ! n)"
  proof (intro allI impI)
    fix n assume n: "n < length ?ids"
    with len dist have "map_of (zip (map int ?ids) ?table) (map int ?ids ! n) = Some (?table ! n)"
      by (intro map_of_zip_nth) simp_all
    with n show "map_of ?sections (int (?ids ! n)) = Some (?table ! n)" by simp
  qed
  have dom: "dom (map_of ?sections) = int ` set ?ids"
    using len by simp
  have srt: "sorted_wrt (<) ?ids"
    by (simp add: feature_ids_filter sorted_wrt_filter)
  show ?thesis
    unfolding Let_def using run nth dom srt feature_ids_set [of "features (header_view m)"]
    by blast
qed

lemma feature_ids_bits_2_5: "feature_ids (0x24 # replicate 31 0) = [2, 5]"
  by code_simp

theorem FeatureSectionDescriptors_table_witness:
  "FeatureSectionDescriptors fresh_reader two_features =
     Inr ([(2, \<lparr>offset = 100, size' = 20\<rparr>), (5, \<lparr>offset = 200, size' = 8\<rparr>)],
          fresh_reader\<lparr>feature_sections :=
            [(2, \<lparr>offset = 100, size' = 20\<rparr>), (5, \<lparr>offset = 200, size' = 8\<rparr>)]\<rparr>)
   \<and> map_of [(2, \<lparr>offset = 100, size' = 20\<rparr>), (5, \<lparr>offset = 200, size' = 8\<rparr>)] (2 :: int)
       = Some \<lparr>offset = 100, size' = 20\<rparr>
   \<and> map_of [(2, \<lparr>offset = 100, size' = 20\<rparr>), (5, \<lparr>offset = 200, size' = 8\<rparr>)] (5 :: int)
       = Some \<lparr>offset = 200, size' = 8\<rparr>"
proof -
  have ids: "feature_ids (features (header_view two_features)) = [2, 5]"
    by (simp add: two_features_def feature_ids_bits_2_5)
  have fresh: "feature_sections fresh_reader = []"
    by (simp add: fresh_reader_def new_RecordFileReader_def)
  have room: "unat (offset (data (header_view two_features)) + size' (data (header_view two_features)))
             + 16 * length (feature_ids (features (header_view two_features)))
           \<le> length (bytes two_features)"
    unfolding ids by (simp add: two_features_def)
  have table: "descriptor_table (bytes two_features)
      (unat (offset (data (header_view two_features)) + size' (data (header_view two_features))))
      (Suc (Suc 0))
      = [\<lparr>offset = 100, size' = 20\<rparr>, \<lparr>offset = 200, size' = 8\<rparr>]"
    by (simp add: two_features_def descriptor_table_def)
  from FeatureSectionDescriptors_table [OF fresh room]
  show ?thesis
    unfolding Let_def ids by (simp add: table)
qed

subsection \<open>The command line feature\<close>

lemma le_nat_u32_bytes:
  assumes "n < 2 ^ 32"
  shows "le_nat (u32_bytes n) = n"
proof -
  have b: "unat (word_of_nat k :: byte) = k mod 256" for k
    by (simp add: unat_of_nat)
  from assms have "n div 16777216 mod 256 = n div 16777216" by simp
  then have "le_nat (u32_bytes n)
      = n mod 256 + 256 * (n div 256 mod 256 + 256 * (n div 65536 mod 256 + 256 * (n div 16777216)))"
    by (simp add: u32_bytes_def b)
  also have "\<dots> = n"
  proof -
    have 1: "n div 65536 = n div 256 div 256" by (simp add: div_mult2_eq)
    have 2: "n div 16777216 = n div 256 div 256 div 256" by (simp add: div_mult2_eq)
    show ?thesis unfolding 1 2 by (simp add: mod_mult_div_eq mult_div_mod_eq)
  qed
  finally show ?thesis .
qed

lemma u32_at_u32_bytes:
  assumes "n < 2 ^ 32"
  shows "u32_at (pre @ u32_bytes n @ rest) (length pre) = Some (word_of_nat n)"
proof -
  have "length (u32_bytes n) = 4" by (simp add: u32_bytes_def)
  then have "take 4 (u32_bytes n @ rest) = u32_bytes n" by simp
  with \<open>length (u32_bytes n) = 4\<close> show ?thesis
    by (simp add: u32_at_def bytes_at_def le_nat_u32_bytes [OF assms])
qed

lemma string_at_body:
  assumes "0 \<in> set body"
  shows "string_at (pre @ body @ rest) (length pre) = Some (arg_text body)"
proof -
  from assms have "takeWhile (\<lambda>b. b \<noteq> 0) (body @ rest) = takeWhile (\<lambda>b. b \<noteq> 0) body"
    by (intro takeWhile_append1 [where x = 0]) simp_all
  with assms show ?thesis by (simp add: string_at_def arg_text_def)
qed

text \<open>Pointers at a distance from the base that does not leave the address space.\<close>

lemma distance_ptr:
  assumes "unat (base_addr m) + k < 2 ^ 64"
  shows "distance m (base_addr m + word_of_nat k) = k"
  using assms by (simp add: distance_def unat_of_nat)

lemma unat_ptr:
  fixes b :: "64 word"
  assumes "unat b + k < 2 ^ 64"
  shows "unat (b + word_of_nat k) = unat b + k"
proof -
  from assms have k: "unat (word_of_nat k :: 64 word) = k" by (simp add: unat_of_nat)
  with assms have "unat b + unat (word_of_nat k :: 64 word) < 2 ^ LENGTH(64)" by simp
  then have "unat (b + word_of_nat k) = unat b + unat (word_of_nat k :: 64 word)"
    by (simp only: unat_add_lem)
  with k show ?thesis by simp
qed

lemma ptr_le:
  fixes b :: "64 word"
  assumes "unat b + j < 2 ^ 64" and "unat b + k < 2 ^ 64"
  shows "(b + word_of_nat j \<le> b + word_of_nat k) = (j \<le> k)"
  by (simp add: word_le_nat_alt unat_ptr [OF assms(1)] unat_ptr [OF assms(2)])

lemma ptr_advance:
  fixes b :: "64 word" and len :: "32 word"
  shows "b + word_of_nat k + 4 = b + word_of_nat (k + 4)"
    and "b + word_of_nat k + ucast len = b + word_of_nat (k + unat len)"
  by simp_all

lemma word_of_nat_unat64: "word_of_nat (unat w) = w" for w :: "64 word"
  by simp

lemma ucast_u32: "(ucast w :: 64 word) = word_of_nat (unat w)" for w :: "32 word"
  by simp

lemma ReadCmdlineFeature_loop_encoded:
  assumes layout: "bytes m = pre @ encode_args bodies @ rest"
      and bodies: "\<forall>body\<in>set bodies. 0 \<in> set body \<and> length body < 2 ^ 32"
      and inside: "length pre + length (encode_args bodies) \<le> E"
      and nowrap: "unat (base_addr m) + E < 2 ^ 64"
  shows "ReadCmdlineFeature_loop m (base_addr m + word_of_nat E) (length bodies)
           (base_addr m + word_of_nat (length pre)) acc
         = Inr (acc @ map arg_text bodies,
                base_addr m + word_of_nat (length pre + length (encode_args bodies)))"
  using layout bodies inside
proof (induction bodies arbitrary: pre acc)
  case Nil
  then show ?case by (simp add: encode_args_def)
next
  case (Cons body bodies)
  let ?b = "base_addr m"
  let ?k = "length pre"
  let ?n = "length body"
  let ?pre' = "pre @ u32_bytes ?n @ body"
  have enc: "encode_args (body # bodies) = u32_bytes ?n @ body @ encode_args bodies"
    by (simp add: encode_args_def)
  have four: "length (u32_bytes ?n) = 4" by (simp add: u32_bytes_def)
  from Cons.prems(2) have zero: "0 \<in> set body" and small: "?n < 2 ^ 32"
    and rest_ok: "\<forall>body\<in>set bodies. 0 \<in> set body \<and> length body < 2 ^ 32"
    by simp_all
  from Cons.prems(3) have room: "?k + 4 + ?n + length (encode_args bodies) \<le> E"
    by (simp add: enc four)
  with nowrap have k: "unat ?b + ?k < 2 ^ 64" and k4: "unat ?b + (?k + 4) < 2 ^ 64"
    and kn: "unat ?b + (?k + 4 + ?n) < 2 ^ 64"
    by simp_all
  have bytes1: "bytes m = pre @ u32_bytes ?n @ (body @ encode_args bodies @ rest)"
    using Cons.prems(1) by (simp add: enc)
  have bytes2: "bytes m = (pre @ u32_bytes ?n) @ body @ (encode_args bodies @ rest)"
    using Cons.prems(1) by (simp add: enc)
  have bytes3: "bytes m = ?pre' @ encode_args bodies @ rest"
    using Cons.prems(1) by (simp add: enc)
  have len: "u32_at (bytes m) ?k = Some (word_of_nat ?n)"
    unfolding bytes1 by (rule u32_at_u32_bytes [OF small])
  have ulen: "unat (word_of_nat ?n :: 32 word) = ?n"
    using small by (simp add: unat_of_nat)
  have clen: "(ucast (word_of_nat ?n :: 32 word) :: 64 word) = word_of_nat ?n"
    by (simp only: ucast_u32 ulen)
  have move: "MoveFromBinaryFormat_u32 m (?b + word_of_nat ?k)
                = Some (word_of_nat ?n, ?b + word_of_nat (?k + 4))"
    by (simp add: MoveFromBinaryFormat_u32_def distance_ptr [OF k] len)
  have check: "?b + word_of_nat (?k + 4) + ucast (word_of_nat ?n :: 32 word)
                 \<le> ?b + word_of_nat E"
  proof -
    have "?b + word_of_nat (?k + 4) + ucast (word_of_nat ?n :: 32 word)
            = ?b + word_of_nat (?k + 4 + ?n)"
      by (simp add: clen)
    moreover from room have "?k + 4 + ?n \<le> E" by simp
    ultimately show ?thesis by (simp only: ptr_le [OF kn nowrap])
  qed
  have arg: "string_at (bytes m) (distance m (?b + word_of_nat (?k + 4))) = Some (arg_text body)"
  proof -
    have "string_at ((pre @ u32_bytes ?n) @ body @ (encode_args bodies @ rest))
            (length (pre @ u32_bytes ?n)) = Some (arg_text body)"
      by (rule string_at_body [OF zero])
    then show ?thesis
      unfolding distance_ptr [OF k4] bytes2 by (simp add: four)
  qed
  have next_p: "?b + word_of_nat (?k + 4) + ucast (word_of_nat ?n :: 32 word)
                  = ?b + word_of_nat (length ?pre')"
    by (simp add: clen four)
  from room have inside': "length ?pre' + length (encode_args bodies) \<le> E"
    by (simp add: four)
  have "ReadCmdlineFeature_loop m (?b + word_of_nat E) (length (body # bodies))
          (?b + word_of_nat ?k) acc
        = ReadCmdlineFeature_loop m (?b + word_of_nat E) (length bodies)
            (?b + word_of_nat (length ?pre')) (acc @ [arg_text body])"
    using check by (simp add: move arg next_p del: of_nat_add)
  also have "\<dots> = Inr ((acc @ [arg_text body]) @ map arg_text bodies,
                       ?b + word_of_nat (length ?pre' + length (encode_args bodies)))"
    by (rule Cons.IH [OF bytes3 rest_ok inside'])
  finally show ?case by (simp add: enc four add.assoc)
qed

lemma ReadCmdlineFeature_encoded:
  assumes sections: "FeatureSectionDescriptors r m = Inr (section_map, r')"
      and present: "map_of section_map FEAT_CMDLINE = Some section"
      and layout: "bytes m = pre @ encode_cmdline bodies @ rest"
      and off: "unat (offset section) = length pre"
      and count: "length bodies < 2 ^ 32"
      and bodies: "\<forall>body\<in>set bodies. 0 \<in> set body \<and> length body < 2 ^ 32"
      and inside: "length pre + length (encode_cmdline bodies)
                     \<le> unat (offset section + size' section)"
      and nowrap: "unat (base_addr m) + unat (offset section + size' section) < 2 ^ 64"
  shows "ReadCmdlineFeature r m = Inr (map arg_text bodies, r')"
proof -
  let ?b = "base_addr m"
  let ?k = "length pre"
  let ?E = "unat (offset section + size' section)"
  let ?pre' = "pre @ u32_bytes (length bodies)"
  have four: "length (u32_bytes (length bodies)) = 4" by (simp add: u32_bytes_def)
  from inside have room: "?k + 4 + length (encode_args bodies) \<le> ?E"
    by (simp add: encode_cmdline_def four)
  with nowrap have k: "unat ?b + ?k < 2 ^ 64" and k4: "unat ?b + (?k + 4) < 2 ^ 64"
    by simp_all
  have p0: "DataAtOffset m (offset section) = ?b + word_of_nat ?k"
    using off word_of_nat_unat64 [of "offset section"] by (simp add: DataAtOffset_def)
  have e: "DataAtOffset m (offset section + size' section) = ?b + word_of_nat ?E"
    by (simp add: DataAtOffset_def)
  have bytes1: "bytes m = pre @ u32_bytes (length bodies) @ (encode_args bodies @ rest)"
    using layout by (simp add: encode_cmdline_def)
  have bytes2: "bytes m = ?pre' @ encode_args bodies @ rest"
    using layout by (simp add: encode_cmdline_def)
  have cnt: "u32_at (bytes m) ?k = Some (word_of_nat (length bodies))"
    unfolding bytes1 by (rule u32_at_u32_bytes [OF count])
  have ucnt: "unat (word_of_nat (length bodies) :: 32 word) = length bodies"
    using count by (simp add: unat_of_nat)
  have move: "MoveFromBinaryFormat_u32 m (?b + word_of_nat ?k)
                = Some (word_of_nat (length bodies), ?b + word_of_nat (?k + 4))"
    by (simp add: MoveFromBinaryFormat_u32_def distance_ptr [OF k] cnt)
  from room have "?k + 4 \<le> ?E" by simp
  then have check: "?b + word_of_nat (?k + 4) \<le> ?b + word_of_nat ?E"
    by (simp only: ptr_le [OF k4 nowrap])
  from room have inside': "length ?pre' + length (encode_args bodies) \<le> ?E"
    by (simp add: four)
  have "ReadCmdlineFeature_loop m (?b + word_of_nat ?E) (length bodies)
          (?b + word_of_nat (length ?pre')) []
        = Inr ([] @ map arg_text bodies,
               ?b + word_of_nat (length ?pre' + length (encode_args bodies)))"
    by (rule ReadCmdlineFeature_loop_encoded [OF bytes2 bodies inside' nowrap])
  then have loop: "ReadCmdlineFeature_loop m (?b + word_of_nat ?E) (length bodies)
          (?b + word_of_nat (?k + 4)) []
        = Inr (map arg_text bodies,
               ?b + word_of_nat (length ?pre' + length (encode_args bodies)))"
    by (simp add: four)
  show ?thesis
    unfolding ReadCmdlineFeature_def sections
    using check [unfolded word_of_nat_unat64] loop [unfolded word_of_nat_unat64]
    by (simp add: present Let_def p0 e move ucnt del: of_nat_add)
qed


lemma cmdline_abc_de_encoding:
  "cmdline_abc_de = encode_cmdline [map of_char ''abc'' @ [0], map of_char ''de'' @ [0]]"
  by (simp add: cmdline_abc_de_def encode_cmdline_def encode_args_def u32_bytes_def)

lemma cmdline_abc_de_texts:
  "map arg_text [map of_char ''abc'' @ [0], map of_char ''de'' @ [0]] = [''abc'', ''de'']"
  by code_simp

text \<open>
  C6, as the code has it: when the feature table has no entry for \<^verbatim>\<open>FEAT_CMDLINE\<close>,
  \<^verbatim>\<open>ReadCmdlineFeature\<close> returns the empty sequence and no error. When it has one, and
  the section holds the two arguments \<open>abc\<close> and \<open>de\<close>, each followed by a zero byte that
  its length counts, and does not end before them, \<^verbatim>\<open>ReadCmdlineFeature\<close> returns
  exactly \<open>abc\<close> and \<open>de\<close>, in that order.
\<close>

theorem ReadCmdlineFeature_optional:
  "(FeatureSectionDescriptors r m = Inr (section_map, r')
      \<and> map_of section_map FEAT_CMDLINE = None
    \<longrightarrow> ReadCmdlineFeature r m = Inr ([], r'))
   \<and> (FeatureSectionDescriptors r m = Inr (section_map, r')
      \<and> map_of section_map FEAT_CMDLINE = Some section
      \<and> bytes m = pre @ cmdline_abc_de @ rest
      \<and> unat (offset section) = length pre
      \<and> length pre + 19 \<le> unat (offset section + size' section)
      \<and> unat (base_addr m) + unat (offset section + size' section) < 2 ^ 64
    \<longrightarrow> ReadCmdlineFeature r m = Inr ([''abc'', ''de''], r'))"
proof (intro conjI impI)
  assume "FeatureSectionDescriptors r m = Inr (section_map, r')
      \<and> map_of section_map FEAT_CMDLINE = None"
  then show "ReadCmdlineFeature r m = Inr ([], r')"
    by (simp add: ReadCmdlineFeature_def)
next
  let ?bodies = "[map of_char ''abc'' @ [0], map of_char ''de'' @ [0 :: byte]]"
  assume a: "FeatureSectionDescriptors r m = Inr (section_map, r')
      \<and> map_of section_map FEAT_CMDLINE = Some section
      \<and> bytes m = pre @ cmdline_abc_de @ rest
      \<and> unat (offset section) = length pre
      \<and> length pre + 19 \<le> unat (offset section + size' section)
      \<and> unat (base_addr m) + unat (offset section + size' section) < 2 ^ 64"
  have len: "length (encode_cmdline ?bodies) = 19"
    unfolding cmdline_abc_de_encoding [symmetric] by (simp add: cmdline_abc_de_def)
  have "ReadCmdlineFeature r m = Inr (map arg_text ?bodies, r')"
  proof (rule ReadCmdlineFeature_encoded)
    show "FeatureSectionDescriptors r m = Inr (section_map, r')" using a by simp
    show "map_of section_map FEAT_CMDLINE = Some section" using a by simp
    show "bytes m = pre @ encode_cmdline ?bodies @ rest"
      using a by (simp only: cmdline_abc_de_encoding)
    show "unat (offset section) = length pre" using a by simp
    show "length ?bodies < 2 ^ 32" by simp
    show "\<forall>body\<in>set ?bodies. 0 \<in> set body \<and> length body < 2 ^ 32" by simp
    show "length pre + length (encode_cmdline ?bodies) \<le> unat (offset section + size' section)"
      using a unfolding len by simp
    show "unat (base_addr m) + unat (offset section + size' section) < 2 ^ 64"
      using a by simp
  qed
  then show "ReadCmdlineFeature r m = Inr ([''abc'', ''de''], r')"
    by (simp only: cmdline_abc_de_texts)
qed


subsection \<open>The command line feature on concrete files\<close>

lemma feature_ids_cmdline: "feature_ids cmdline_features = [11]"
  by code_simp

lemma cmdline_file_sections:
  "FeatureSectionDescriptors fresh_reader cmdline_file =
     Inr ([(11, \<lparr>offset = 29, size' = 24\<rparr>)],
          fresh_reader\<lparr>feature_sections := [(11, \<lparr>offset = 29, size' = 24\<rparr>)]\<rparr>)"
  by (simp add: FeatureSectionDescriptors_def FileHeader_def Let_def scan_features_eq
        cmdline_file_def feature_ids_cmdline fresh_reader_def new_RecordFileReader_def
        SectionDesc_at_eq cmdline_abc_de_def)


lemma two_features_sections:
  "FeatureSectionDescriptors fresh_reader two_features =
     Inr ([(2, \<lparr>offset = 100, size' = 20\<rparr>), (5, \<lparr>offset = 200, size' = 8\<rparr>)],
          fresh_reader\<lparr>feature_sections :=
            [(2, \<lparr>offset = 100, size' = 20\<rparr>), (5, \<lparr>offset = 200, size' = 8\<rparr>)]\<rparr>)"
  by (simp add: FeatureSectionDescriptors_def FileHeader_def Let_def scan_features_eq
        two_features_def feature_ids_bits_2_5 fresh_reader_def new_RecordFileReader_def
        SectionDesc_at_eq)

lemma unterminated_file_sections:
  "FeatureSectionDescriptors fresh_reader unterminated_file =
     Inr ([(11, \<lparr>offset = 29, size' = 17\<rparr>)],
          fresh_reader\<lparr>feature_sections := [(11, \<lparr>offset = 29, size' = 17\<rparr>)]\<rparr>)"
  by (simp add: FeatureSectionDescriptors_def FileHeader_def Let_def scan_features_eq
        cmdline_file_def unterminated_file_def feature_ids_cmdline fresh_reader_def
        new_RecordFileReader_def SectionDesc_at_eq cmdline_abc_de_plain_def)

lemma cmdline_file_layout:
  "bytes cmdline_file =
     ([0, 0, 0, 0] @ [1, 0, 0, 0, 0, 0, 9, 0, 5] @
      [29, 0, 0, 0, 0, 0, 0, 0, 24, 0, 0, 0, 0, 0, 0, 0])
     @ cmdline_abc_de @ [7, 7, 7, 7, 7]"
  by (simp add: cmdline_file_def)


text \<open>
  The claim that a section with the arguments \<open>abc\<close> and \<open>de\<close> is read to exactly these
  fails where the section is laid out as the spec has it, each length followed by that
  many bytes of text: the text of an argument is read up to the first zero byte, not up
  to its length, and runs on into what follows.
\<close>

theorem ReadCmdlineFeature_optional_counterexample:
  "ReadCmdlineFeature fresh_reader unterminated_file =
     Inr ([''abc'' @ [CHR 0x02], ''de'' @ [CHR 0x07]],
          fresh_reader\<lparr>feature_sections := [(11, \<lparr>offset = 29, size' = 17\<rparr>)]\<rparr>)"
proof -
  have base: "base_addr unterminated_file = 0x10000"
    by (simp add: unterminated_file_def cmdline_file_def)
  have strings: "string_at (bytes unterminated_file) 37 = Some (''abc'' @ [CHR 0x02])"
    "string_at (bytes unterminated_file) 44 = Some (''de'' @ [CHR 0x07])"
    by code_simp+
  have words: "u32_at (bytes unterminated_file) 29 = Some 2"
    "u32_at (bytes unterminated_file) 33 = Some 3"
    "u32_at (bytes unterminated_file) 40 = Some 2"
    by (simp_all add: u32_at_def bytes_at_def unterminated_file_def cmdline_file_def
          cmdline_abc_de_plain_def)
  have "ReadCmdlineFeature_loop unterminated_file (0x10000 + 46) (Suc (Suc 0)) (0x10000 + 33) []
          = Inr ([''abc'' @ [CHR 0x02], ''de'' @ [CHR 0x07]], 0x10000 + 46)"
    by (simp add: MoveFromBinaryFormat_u32_def distance_def base words strings)
  then have "ReadCmdlineFeature_loop unterminated_file (0x10000 + 46) 2 (0x10000 + 33) []
          = Inr ([''abc'' @ [CHR 0x02], ''de'' @ [CHR 0x07]], 0x10000 + 46)"
    by (simp only: numeral_2_eq_2)
  then show ?thesis
    unfolding ReadCmdlineFeature_def unterminated_file_sections
    by (simp add: FEAT_CMDLINE_def DataAtOffset_def MoveFromBinaryFormat_u32_def distance_def
          base words del: ReadCmdlineFeature_loop.simps)
qed

theorem ReadCmdlineFeature_optional_witness:
  "ReadCmdlineFeature fresh_reader two_features =
     Inr ([], fresh_reader\<lparr>feature_sections :=
            [(2, \<lparr>offset = 100, size' = 20\<rparr>), (5, \<lparr>offset = 200, size' = 8\<rparr>)]\<rparr>)
   \<and> ReadCmdlineFeature fresh_reader cmdline_file =
     Inr ([''abc'', ''de''],
          fresh_reader\<lparr>feature_sections := [(11, \<lparr>offset = 29, size' = 24\<rparr>)]\<rparr>)"
proof -
  let ?full = "\<lparr>offset = 29, size' = 24\<rparr> :: SectionDesc"
  let ?pre = "[0, 0, 0, 0] @ [1, 0, 0, 0, 0, 0, 9, 0, 5] @
      [29, 0, 0, 0, 0, 0, 0, 0, 24, 0, 0, 0, 0, 0, 0, 0 :: byte]"
  have absent: "map_of [(2, \<lparr>offset = 100, size' = 20\<rparr>), (5, \<lparr>offset = 200, size' = 8\<rparr>)]
                  FEAT_CMDLINE = None"
    by (simp add: FEAT_CMDLINE_def)
  have present: "map_of [(11, ?full)] FEAT_CMDLINE = Some ?full"
    by (simp add: FEAT_CMDLINE_def)
  have off: "unat (offset ?full) = length ?pre"
    and room: "length ?pre + 19 \<le> unat (offset ?full + size' ?full)"
    and nowrap: "unat (base_addr cmdline_file) + unat (offset ?full + size' ?full) < 2 ^ 64"
    by (simp_all add: cmdline_file_def)
  from ReadCmdlineFeature_optional [of fresh_reader two_features] two_features_sections absent
  have "ReadCmdlineFeature fresh_reader two_features =
     Inr ([], fresh_reader\<lparr>feature_sections :=
            [(2, \<lparr>offset = 100, size' = 20\<rparr>), (5, \<lparr>offset = 200, size' = 8\<rparr>)]\<rparr>)"
    by blast
  moreover
  from ReadCmdlineFeature_optional [of fresh_reader cmdline_file] cmdline_file_sections
    present cmdline_file_layout off room nowrap
  have "ReadCmdlineFeature fresh_reader cmdline_file =
     Inr ([''abc'', ''de''],
          fresh_reader\<lparr>feature_sections := [(11, ?full)]\<rparr>)"
    by blast
  ultimately show ?thesis by simp
qed


end
